theory Spec2Isabelle
  imports Complex_Main "HOL-Library.AList"
begin

section \<open>Order book engine (engine/orderbook.py)\<close>

text \<open>
  Prices and timestamps are Python floats that the book only compares and uses as
  dictionary keys; they are modelled as rationals. Sizes are Python integers (the
  event source and the strategy both supply integers) and are modelled as \<open>int\<close>.
  Side tags are the source's strings.
\<close>

record order =
  o_oid :: int
  o_side :: string
  o_price :: rat
  o_size :: int
  o_ts :: rat

text \<open>
  A half-book is a \<open>defaultdict(deque)\<close>: an insertion-ordered dictionary from a price
  to its FIFO queue, modelled as an association list (\<open>AList.update\<close> keeps the place
  of a key that is present and appends a new key, as a Python dictionary does).
\<close>

type_synonym book_side = "(rat \<times> order list) list"

text \<open>A fill as \<open>process_trade\<close> emits it: (tag, level price, quantity taken).\<close>

type_synonym fill = "string \<times> rat \<times> int"

record orderbook =
  bids :: book_side
  asks :: book_side
  bid_prices :: "rat list"
  ask_prices :: "rat list"
  next_oid :: int
  time :: rat

definition empty_book :: orderbook where
  "empty_book = \<lparr>bids = [], asks = [], bid_prices = [], ask_prices = [], next_oid = 1, time = 0\<rparr>"

text \<open>
  Reading \<open>book_side[price]\<close>: the queue at the key, or an empty queue for a missing
  key. (The \<open>defaultdict\<close> also stores the empty queue it returns; every reader below
  either writes the queue back or deletes the key again, so that store is written out
  where it matters.)
\<close>

definition get_queue :: "book_side \<Rightarrow> rat \<Rightarrow> order list" where
  "get_queue book_side p = (case map_of book_side p of None \<Rightarrow> [] | Some q \<Rightarrow> q)"

subsection \<open>Helpers\<close>

text \<open>\<open>bisect.insort\<close>: the binary search of \<open>bisect_right\<close>, then the insertion.\<close>

function bisect_right :: "rat list \<Rightarrow> rat \<Rightarrow> nat \<Rightarrow> nat \<Rightarrow> nat" where
  "bisect_right a x lo hi =
     (if lo < hi then
        (let mid = (lo + hi) div 2
         in if x < a ! mid then bisect_right a x lo mid else bisect_right a x (mid + 1) hi)
      else lo)"
  by pat_completeness auto
termination
  by (relation "measure (\<lambda>(a, x, lo, hi). hi - lo)") auto

declare bisect_right.simps [simp del]

definition insort_right :: "rat list \<Rightarrow> rat \<Rightarrow> rat list" where
  "insort_right a x = (let i = bisect_right a x 0 (length a) in take i a @ x # drop i a)"

definition insert_price :: "rat list \<Rightarrow> rat \<Rightarrow> rat list" where
  "insert_price prices price =
     (if price \<in> set prices then prices
      else if prices = [] then prices @ [price]
      else insort_right prices price)"

text \<open>
  \<open>_remove_price_if_empty\<close>: when the queue at the price is empty (or the key is
  missing, which the \<open>defaultdict\<close> read turns into an empty queue), the key is deleted
  and one occurrence of the price is removed from the level list; a price that is not
  listed is skipped (the swallowed \<open>ValueError\<close>).
\<close>

definition remove_price_if_empty :: "rat list \<Rightarrow> rat \<Rightarrow> book_side \<Rightarrow> rat list \<times> book_side" where
  "remove_price_if_empty prices price book_side =
     (if length (get_queue book_side price) = 0
      then (remove1 price prices, AList.delete price book_side)
      else (prices, book_side))"

subsection \<open>Snapshots and top of book\<close>

fun install_levels ::
  "string \<Rightarrow> rat \<Rightarrow> (rat \<times> int) list \<Rightarrow> book_side \<times> rat list \<Rightarrow> book_side \<times> rat list" where
  "install_levels sd t [] acc = acc"
| "install_levels sd t ((p, s) # rest) (book_side, prices) =
     (if s \<le> 0 then install_levels sd t rest (book_side, prices)
      else install_levels sd t rest
             (AList.update p [\<lparr>o_oid = 0, o_side = sd, o_price = p, o_size = s, o_ts = t\<rparr>] book_side,
              insert_price prices p))"

definition apply_snapshot ::
  "(rat \<times> int) list \<Rightarrow> (rat \<times> int) list \<Rightarrow> rat \<Rightarrow> orderbook \<Rightarrow> orderbook" where
  "apply_snapshot bid_levels ask_levels t ob =
     (let (b, bp) = install_levels ''bid'' t bid_levels ([], []);
          (a, ap) = install_levels ''ask'' t ask_levels ([], [])
      in ob\<lparr>time := t, bids := b, asks := a, bid_prices := bp, ask_prices := ap\<rparr>)"

definition top_of_book :: "orderbook \<Rightarrow> rat option \<times> rat option" where
  "top_of_book ob =
     (if bid_prices ob \<noteq> [] then Some (Max (set (bid_prices ob))) else None,
      if ask_prices ob \<noteq> [] then Some (Min (set (ask_prices ob))) else None)"

subsection \<open>Trades\<close>

text \<open>
  The inner loop of \<open>process_trade\<close> on one queue: while trade size remains and the
  queue is non-empty, take \<open>min(o.size, size)\<close> from the head order, emit a fill, and pop
  the head when its size reached 0.
\<close>

function drain ::
  "string \<Rightarrow> rat \<Rightarrow> order list \<Rightarrow> int \<Rightarrow> fill list \<Rightarrow> order list \<times> int \<times> fill list" where
  "drain tag p q sz fills =
     (if sz > 0 \<and> q \<noteq> [] then
        (let o1 = hd q;
             take1 = min (o_size o1) sz;
             o2 = o1\<lparr>o_size := o_size o1 - take1\<rparr>;
             sz' = sz - take1;
             fills' = fills @ [(tag, p, take1)]
         in if o_size o2 = 0 then drain tag p (tl q) sz' fills'
            else drain tag p (o2 # tl q) sz' fills')
      else (q, sz, fills))"
  by pat_completeness auto
termination
  by (relation "measure (\<lambda>(tag, p, q, sz, fills). 2 * length q + (if sz > 0 then 1 else 0))")
     (auto simp: min_def split: if_splits)

declare drain.simps [simp del]

text \<open>
  The two outer loops of \<open>process_trade\<close> differ only in the side they walk: the ask
  loop takes \<open>min(ask_prices)\<close>, tests \<open>price >= best\<close> and tags \<open>'sell'\<close>; the bid loop
  takes \<open>max(bid_prices)\<close>, tests \<open>price <= best\<close> and tags \<open>'buy'\<close>. The flag
  \<open>is_ask\<close> selects between them.
\<close>

definition best_price :: "bool \<Rightarrow> rat list \<Rightarrow> rat" where
  "best_price is_ask prices = (if is_ask then Min (set prices) else Max (set prices))"

definition crosses :: "bool \<Rightarrow> rat \<Rightarrow> rat \<Rightarrow> bool" where
  "crosses is_ask price p = (if is_ask then price \<ge> p else price \<le> p)"

definition fill_tag :: "bool \<Rightarrow> string" where
  "fill_tag is_ask = (if is_ask then ''sell'' else ''buy'')"

definition sweep_level ::
  "bool \<Rightarrow> rat list \<Rightarrow> book_side \<Rightarrow> int \<Rightarrow> fill list \<Rightarrow> rat list \<times> book_side \<times> int \<times> fill list" where
  "sweep_level is_ask prices book_side sz fills =
     (let p = best_price is_ask prices;
          (q', sz', fills') = drain (fill_tag is_ask) p (get_queue book_side p) sz fills;
          (prices', book_side') = remove_price_if_empty prices p (AList.update p q' book_side)
      in (prices', book_side', sz', fills'))"

function sweep ::
  "bool \<Rightarrow> rat \<Rightarrow> rat list \<Rightarrow> book_side \<Rightarrow> int \<Rightarrow> fill list \<Rightarrow> rat list \<times> book_side \<times> int \<times> fill list" where
  "sweep is_ask price prices book_side sz fills =
     (if sz > 0 \<and> prices \<noteq> [] \<and> crosses is_ask price (best_price is_ask prices) then
        (case sweep_level is_ask prices book_side sz fills of
           (prices', book_side', sz', fills') \<Rightarrow> sweep is_ask price prices' book_side' sz' fills')
      else (prices, book_side, sz, fills))"
  by pat_completeness auto

text \<open>
  The loop ends: an iteration either uses the trade up or empties the queue of the
  best level, which then leaves the level list.
\<close>

lemma drain_done:
  "drain tag p q sz fills = (q', sz', fills') \<Longrightarrow> q' = [] \<or> sz' \<le> 0"
proof (induction tag p q sz fills rule: drain.induct)
  case (1 tag p q sz fills)
  show ?case
  proof (cases "sz > 0 \<and> q \<noteq> []")
    case True
    then show ?thesis using 1
      by (subst (asm) (3) drain.simps) (auto simp: Let_def split: if_splits)
  next
    case False
    then show ?thesis using "1.prems" by (subst (asm) drain.simps) auto
  qed
qed

lemma best_price_in: "prices \<noteq> [] \<Longrightarrow> best_price is_ask prices \<in> set prices"
  by (simp add: best_price_def)

lemma get_queue_update [simp]:
  "get_queue (AList.update p q book_side) p' = (if p' = p then q else get_queue book_side p')"
  by (simp add: get_queue_def update_conv')

lemma get_queue_delete [simp]:
  "get_queue (AList.delete p book_side) p' = (if p' = p then [] else get_queue book_side p')"
  by (simp add: get_queue_def delete_conv')

lemma sweep_level_eq:
  "drain (fill_tag is_ask) (best_price is_ask prices)
      (get_queue book_side (best_price is_ask prices)) sz fills = (q1, sz1, fills1) \<Longrightarrow>
   sweep_level is_ask prices book_side sz fills =
     (if q1 = [] then (remove1 (best_price is_ask prices) prices,
                       AList.delete (best_price is_ask prices) book_side, sz1, fills1)
      else (prices, AList.update (best_price is_ask prices) q1 book_side, sz1, fills1))"
  by (simp add: sweep_level_def remove_price_if_empty_def Let_def delete_update_same)

lemma sweep_level_decreases:
  assumes "sweep_level is_ask prices book_side sz fills = (prices', book_side', sz', fills')"
    and "prices \<noteq> []"
  shows "length prices' < length prices \<or> (prices' = prices \<and> sz' \<le> 0)"
proof -
  let ?p = "best_price is_ask prices"
  obtain q1 sz1 fills1
    where d: "drain (fill_tag is_ask) ?p (get_queue book_side ?p) sz fills = (q1, sz1, fills1)"
    by (cases "drain (fill_tag is_ask) ?p (get_queue book_side ?p) sz fills") auto
  from drain_done[OF d] have "q1 = [] \<or> sz1 \<le> 0" .
  moreover have "?p \<in> set prices" using assms(2) by (rule best_price_in)
  moreover have "length prices > 0" using assms(2) by simp
  ultimately show ?thesis using assms(1) unfolding sweep_level_eq[OF d]
    by (auto simp: length_remove1 split: if_splits)
qed

termination sweep
  apply (relation "measure (\<lambda>(is_ask, price, prices, book_side, sz, fills).
                      2 * length prices + (if sz > 0 then 1 else 0))")
   apply simp
  apply auto
  apply (drule sym)
  apply (frule sweep_level_decreases)
   apply auto
  done

declare sweep.simps [simp del]

text \<open>
  \<open>process_trade\<close>: the ask branch is tested first; the bid branch is its \<open>elif\<close>.
  The size left over when the loop ends is dropped: only the fills are returned.
\<close>

definition hits_asks :: "orderbook \<Rightarrow> rat \<Rightarrow> bool" where
  "hits_asks ob price = (ask_prices ob \<noteq> [] \<and> price \<ge> Min (set (ask_prices ob)))"

definition hits_bids :: "orderbook \<Rightarrow> rat \<Rightarrow> bool" where
  "hits_bids ob price = (bid_prices ob \<noteq> [] \<and> price \<le> Max (set (bid_prices ob)))"

definition process_trade :: "rat \<Rightarrow> int \<Rightarrow> rat \<Rightarrow> orderbook \<Rightarrow> orderbook \<times> fill list" where
  "process_trade price sz t ob0 =
     (let ob = ob0\<lparr>time := t\<rparr>
      in if hits_asks ob price then
           (case sweep True price (ask_prices ob) (asks ob) sz [] of
              (prices', asks', sz', fills) \<Rightarrow> (ob\<lparr>ask_prices := prices', asks := asks'\<rparr>, fills))
         else if hits_bids ob price then
           (case sweep False price (bid_prices ob) (bids ob) sz [] of
              (prices', bids', sz', fills) \<Rightarrow> (ob\<lparr>bid_prices := prices', bids := bids'\<rparr>, fills))
         else (ob, []))"

subsection \<open>Order placement and cancellation\<close>

definition place_limit_order ::
  "string \<Rightarrow> rat \<Rightarrow> int \<Rightarrow> rat \<Rightarrow> orderbook \<Rightarrow> orderbook \<times> int" where
  "place_limit_order sd price sz t ob0 =
     (let oid = next_oid ob0;
          ob = ob0\<lparr>time := t, next_oid := oid + 1\<rparr>;
          o1 = \<lparr>o_oid = oid, o_side = sd, o_price = price, o_size = sz, o_ts = t\<rparr>
      in if sd = ''bid'' then
           (ob\<lparr>bids := AList.update price (get_queue (bids ob) price @ [o1]) (bids ob),
               bid_prices := insert_price (bid_prices ob) price\<rparr>, oid)
         else
           (ob\<lparr>asks := AList.update price (get_queue (asks ob) price @ [o1]) (asks ob),
               ask_prices := insert_price (ask_prices ob) price\<rparr>, oid))"

text \<open>
  \<open>cancel_order\<close> scans the items of a half-book in dictionary order and, in each
  queue, the orders from the head; the first order bearing the identifier is removed
  from its queue and remove-on-empty is applied to its level.
\<close>

fun find_level :: "int \<Rightarrow> book_side \<Rightarrow> rat option" where
  "find_level oid [] = None"
| "find_level oid ((p, q) # rest) =
     (if oid \<in> set (map o_oid q) then Some p else find_level oid rest)"

fun remove_oid :: "int \<Rightarrow> order list \<Rightarrow> order list" where
  "remove_oid oid [] = []"
| "remove_oid oid (o1 # q) = (if o_oid o1 = oid then q else o1 # remove_oid oid q)"

definition cancel_in_side :: "int \<Rightarrow> rat list \<Rightarrow> book_side \<Rightarrow> (rat list \<times> book_side) option" where
  "cancel_in_side oid prices book_side =
     (case find_level oid book_side of
        None \<Rightarrow> None
      | Some p \<Rightarrow>
          Some (remove_price_if_empty prices p
                  (AList.update p (remove_oid oid (get_queue book_side p)) book_side)))"

definition cancel_order :: "int \<Rightarrow> orderbook \<Rightarrow> orderbook \<times> bool" where
  "cancel_order oid ob =
     (case cancel_in_side oid (bid_prices ob) (bids ob) of
        Some (prices', bids') \<Rightarrow> (ob\<lparr>bid_prices := prices', bids := bids'\<rparr>, True)
      | None \<Rightarrow>
          (case cancel_in_side oid (ask_prices ob) (asks ob) of
             Some (prices', asks') \<Rightarrow> (ob\<lparr>ask_prices := prices', asks := asks'\<rparr>, True)
           | None \<Rightarrow> (ob, False)))"

section \<open>Market-making strategy (strategies/market_maker.py)\<close>

text \<open>
  The strategy's numbers (cash, inventory, average price, realized PnL, mid prices)
  are Python floats; they are modelled as rationals, that is with exact arithmetic.
  One record holds the constructor's parameters and the mutable state, as the class
  does.
\<close>

datatype error = KeyError string | ZeroDivisionError | OverflowError | ValueError

record market_maker =
  order_size :: int
  tick :: rat
  position_limit :: int
  inventory_k :: rat
  spread_ticks_min :: rat
  spread_ticks_max :: rat
  vol_window :: nat
  vol_to_spread_k :: rat
  our_orders :: "(int \<times> string \<times> rat \<times> int) list"
  inventory :: rat
  cash :: rat
  avg_price :: rat
  realized :: rat
  fills :: "(string \<times> rat \<times> rat \<times> rat) list"
  mids :: "rat list"
  equity_curve :: "(rat \<times> rat) list"
  inv_curve :: "(rat \<times> rat) list"
  last_mid :: "rat option"

text \<open>The constructor with its default arguments.\<close>

definition new_market_maker :: market_maker where
  "new_market_maker =
     \<lparr>order_size = 1, tick = 1, position_limit = 50, inventory_k = 1 / 5,
      spread_ticks_min = 1, spread_ticks_max = 5, vol_window = 200, vol_to_spread_k = 10,
      our_orders = [], inventory = 0, cash = 0, avg_price = 0, realized = 0, fills = [],
      mids = [], equity_curve = [], inv_curve = [], last_mid = None\<rparr>"

text \<open>The literal \<open>1e-12\<close>.\<close>

definition eps :: rat where
  "eps = 1 / 10 ^ 12"

subsection \<open>Quoting\<close>

text \<open>
  Prices, the tick and the strategy's numbers are floats, and the quote computation is
  floating-point arithmetic throughout: \<open>np.diff\<close>, \<open>np.std\<close>, products and sums, the
  quotient by the tick, \<open>math.floor\<close> and \<open>math.ceil\<close>. Float sums and products never
  raise. The quotient by a tick of zero raises \<open>ZeroDivisionError\<close> whatever the
  numerator is. For any other tick the quotient is computed, and \<open>math.floor\<close> and
  \<open>math.ceil\<close> raise \<open>OverflowError\<close> when it is infinite and \<open>ValueError\<close> when it is
  not a number; a pair that is returned carries the rounding of every operation.

  The evaluation of \<open>_desired_quotes\<close> for a tick other than zero is therefore a
  parameter \<open>fq\<close> of the functions that reach it: \<open>fq mid mm\<close> is the outcome of the two
  quote expressions in the state \<open>mm\<close>, an error or the pair (bid, ask). Nothing is
  assumed about \<open>fq\<close>: what is proved about \<open>on_event\<close> and the replayer holds for every
  such function.

  \<open>exact_quotes\<close> writes the two expressions out in exact arithmetic, with
  \<open>np.diff\<close> as \<open>np_diff\<close> and \<open>np.std\<close> (numpy's population standard deviation, a
  square root) as a parameter \<open>np_std\<close>. It is the \<open>fq\<close> of the examples, which stay
  at small integers and halves, where floating-point arithmetic is exact, and at fewer
  than five mid prices, where \<open>np.std\<close> is not reached.
\<close>

type_synonym float_quotes = "rat \<Rightarrow> market_maker \<Rightarrow> error + rat \<times> rat"

fun np_diff :: "rat list \<Rightarrow> rat list" where
  "np_diff (a # b # rest) = (b - a) # np_diff (b # rest)"
| "np_diff rest = []"

definition compute_spread_ticks :: "(rat list \<Rightarrow> rat) \<Rightarrow> market_maker \<Rightarrow> rat" where
  "compute_spread_ticks np_std mm =
     (if length (mids mm) < 5 then spread_ticks_min mm
      else
        (let rets = np_diff (mids mm);
             vol = np_std rets / (tick mm + eps);
             raw = spread_ticks_min mm + vol_to_spread_k mm * vol
         in min (spread_ticks_max mm) (max (spread_ticks_min mm) raw)))"

definition exact_quotes :: "(rat list \<Rightarrow> rat) \<Rightarrow> float_quotes" where
  "exact_quotes np_std mid mm =
     (let skew_ticks = inventory_k mm * inventory mm;
          eff_mid = mid - skew_ticks * tick mm;
          half_spread_ticks = (1 / 2) * compute_spread_ticks np_std mm;
          bid = of_int \<lfloor>(eff_mid - half_spread_ticks * tick mm) / tick mm\<rfloor> * tick mm;
          ask = of_int \<lceil>(eff_mid + half_spread_ticks * tick mm) / tick mm\<rceil> * tick mm
      in Inr (bid, ask))"

definition desired_quotes :: "float_quotes \<Rightarrow> rat \<Rightarrow> market_maker \<Rightarrow> error + rat \<times> rat" where
  "desired_quotes fq mid mm = (if tick mm = 0 then Inl ZeroDivisionError else fq mid mm)"

definition place_quotes ::
  "orderbook \<Rightarrow> rat \<Rightarrow> rat \<Rightarrow> rat \<Rightarrow> market_maker \<Rightarrow> orderbook \<times> market_maker" where
  "place_quotes ob bid_price ask_price t mm0 =
     (let ob1 = fold (\<lambda>oid b. fst (cancel_order oid b)) (map fst (our_orders mm0)) ob;
          mm1 = mm0\<lparr>our_orders := []\<rparr>;
          (ob2, mm2) =
            (if inventory mm1 < of_int (position_limit mm1) then
               (case place_limit_order ''bid'' bid_price (order_size mm1) t ob1 of
                  (b, bid_oid) \<Rightarrow>
                    (b, mm1\<lparr>our_orders :=
                           AList.update bid_oid (''bid'', bid_price, order_size mm1) (our_orders mm1)\<rparr>))
             else (ob1, mm1))
      in if inventory mm2 > - of_int (position_limit mm2) then
           (case place_limit_order ''ask'' ask_price (order_size mm2) t ob2 of
              (b, ask_oid) \<Rightarrow>
                (b, mm2\<lparr>our_orders :=
                       AList.update ask_oid (''ask'', ask_price, order_size mm2) (our_orders mm2)\<rparr>))
         else (ob2, mm2))"

text \<open>\<open>deque(maxlen=vol_window).append\<close>: the oldest entries fall out on overflow.\<close>

definition push_mid :: "nat \<Rightarrow> rat list \<Rightarrow> rat \<Rightarrow> rat list" where
  "push_mid maxlen ms mid = (let m = ms @ [mid] in drop (length m - maxlen) m)"

text \<open>
  \<open>on_event\<close> returns the book and the strategy as the call leaves them, and the
  exception it raised, if any. When the quote computation raises, the mid price has
  been stored and pushed, and nothing else has happened.
\<close>

definition on_event ::
  "float_quotes \<Rightarrow> orderbook \<Rightarrow> rat \<Rightarrow> market_maker
     \<Rightarrow> (orderbook \<times> market_maker) \<times> error option" where
  "on_event fq ob t mm =
     (case top_of_book ob of
        (Some best_bid, Some best_ask) \<Rightarrow>
          (let mid = (best_bid + best_ask) / 2;
               mm1 = mm\<lparr>last_mid := Some mid, mids := push_mid (vol_window mm) (mids mm) mid\<rparr>
           in case desired_quotes fq mid mm1 of
                Inl e \<Rightarrow> ((ob, mm1), Some e)
              | Inr (desired_bid, desired_ask) \<Rightarrow>
                  (let bid_px = min desired_bid best_bid;
                       ask_px = max desired_ask best_ask;
                       (ob2, mm2) = place_quotes ob bid_px ask_px t mm1;
                       equity = cash mm2 + inventory mm2 * mid
                   in ((ob2, mm2\<lparr>equity_curve := equity_curve mm2 @ [(t, equity)],
                                  inv_curve := inv_curve mm2 @ [(t, inventory mm2)]\<rparr>), None)))
      | _ \<Rightarrow> ((ob, mm), None))"

subsection \<open>PnL accounting\<close>

definition on_fill :: "string \<Rightarrow> rat \<Rightarrow> rat \<Rightarrow> rat \<Rightarrow> market_maker \<Rightarrow> market_maker" where
  "on_fill sd price qty t mm0 =
     (let mm = mm0\<lparr>fills := fills mm0 @ [(sd, price, qty, t)]\<rparr>
      in if sd = ''buy'' then
           (let mm1 = mm\<lparr>cash := cash mm - price * qty\<rparr>
            in if inventory mm1 \<ge> 0 then
                 (let total_cost = avg_price mm1 * inventory mm1 + price * qty;
                      mm2 = mm1\<lparr>inventory := inventory mm1 + qty\<rparr>
                  in mm2\<lparr>avg_price := total_cost / max (inventory mm2) eps\<rparr>)
               else
                 (let cover = min qty (- inventory mm1);
                      mm2 = mm1\<lparr>realized := realized mm1 + (avg_price mm1 - price) * cover\<rparr>;
                      mm3 = mm2\<lparr>inventory := inventory mm2 + cover\<rparr>;
                      remaining = qty - cover
                  in if inventory mm3 = 0 \<and> remaining > 0
                     then mm3\<lparr>inventory := inventory mm3 + remaining, avg_price := price\<rparr>
                     else mm3))
         else if sd = ''sell'' then
           (let mm1 = mm\<lparr>cash := cash mm + price * qty\<rparr>
            in if inventory mm1 \<le> 0 then
                 (let total_proceeds = avg_price mm1 * (- inventory mm1) + price * qty;
                      mm2 = mm1\<lparr>inventory := inventory mm1 - qty\<rparr>
                  in mm2\<lparr>avg_price := total_proceeds / max (- inventory mm2) eps\<rparr>)
               else
                 (let reduce = min qty (inventory mm1);
                      mm2 = mm1\<lparr>realized := realized mm1 + (price - avg_price mm1) * reduce\<rparr>;
                      mm3 = mm2\<lparr>inventory := inventory mm2 - reduce\<rparr>;
                      remaining = qty - reduce
                  in if inventory mm3 = 0 \<and> remaining > 0
                     then mm3\<lparr>inventory := inventory mm3 - remaining, avg_price := price\<rparr>
                     else mm3))
         else mm)"

section \<open>Event replayer (engine/replayer.py)\<close>

text \<open>
  An event is a dictionary; each key the replayer reads may be missing, and reading a
  missing key with \<open>ev[...]\<close> raises \<open>KeyError\<close> (\<open>ev.get('ts', ...)\<close> has a default).
\<close>

record event =
  ev_type :: "string option"
  ev_ts :: "rat option"
  ev_bids :: "(rat \<times> int) list option"
  ev_asks :: "(rat \<times> int) list option"
  ev_price :: "rat option"
  ev_size :: "int option"

text \<open>
  The replayer calls the strategy through two methods, taken here as a record of
  functions on the strategy's state \<open>'s\<close>. Either method may raise, and the replayer
  does not catch: a call returns the state it leaves behind and the exception, if any.
  \<open>on_event\<close> receives the book and may change it.
\<close>

record 's strategy_ops =
  s_on_event :: "orderbook \<Rightarrow> rat \<Rightarrow> 's \<Rightarrow> (orderbook \<times> 's) \<times> error option"
  s_on_fill :: "string \<Rightarrow> rat \<Rightarrow> rat \<Rightarrow> rat \<Rightarrow> 's \<Rightarrow> 's \<times> error option"

text \<open>
  The market maker as a strategy. Its \<open>on_fill\<close> is arithmetic on floats and on the
  quantity of a fill, which raises nothing for a quantity within the range of a float;
  the model gives it no error.
\<close>

definition simple_market_maker :: "float_quotes \<Rightarrow> market_maker strategy_ops" where
  "simple_market_maker fq =
     \<lparr>s_on_event = on_event fq,
      s_on_fill = (\<lambda>sd price qty t mm. (on_fill sd price qty t mm, None))\<rparr>"

text \<open>The replayer's fields; \<open>stats_fills\<close> is \<open>stats['fills']\<close>, entries (ts, side, price, qty).\<close>

record 's replayer =
  r_ob :: orderbook
  r_strategy :: 's
  stats_fills :: "(rat \<times> string \<times> rat \<times> int) list"

text \<open>
  Every function of the run returns the replayer as it stands when the function ends,
  and the exception that ended it, if any: an exception leaves the loop at once, with
  everything done before it in place.

  The loop over the fills of a trade: each fill is logged, then handed to \<open>on_fill\<close>.
\<close>

fun deliver_fills ::
  "'s strategy_ops \<Rightarrow> rat \<Rightarrow> fill list \<Rightarrow> 's replayer \<Rightarrow> 's replayer \<times> error option" where
  "deliver_fills S t [] r = (r, None)"
| "deliver_fills S t ((sd, price, qty) # rest) r =
     (let r1 = r\<lparr>stats_fills := stats_fills r @ [(t, sd, price, qty)]\<rparr>
      in case s_on_fill S sd price (of_int qty) t (r_strategy r1) of
           (s, Some e) \<Rightarrow> (r1\<lparr>r_strategy := s\<rparr>, Some e)
         | (s, None) \<Rightarrow> deliver_fills S t rest (r1\<lparr>r_strategy := s\<rparr>))"

text \<open>
  The \<open>if typ == 'snapshot' ... elif typ == 'trade' ...\<close> part of the loop body. The
  arguments of a call are read from the event before the call, so a missing key raises
  before the book changes.
\<close>

definition dispatch ::
  "'s strategy_ops \<Rightarrow> string \<Rightarrow> event \<Rightarrow> rat \<Rightarrow> 's replayer \<Rightarrow> 's replayer \<times> error option" where
  "dispatch S typ ev t r =
     (if typ = ''snapshot'' then
        (case ev_bids ev of
           None \<Rightarrow> (r, Some (KeyError ''bids''))
         | Some b \<Rightarrow>
             (case ev_asks ev of
                None \<Rightarrow> (r, Some (KeyError ''asks''))
              | Some a \<Rightarrow> (r\<lparr>r_ob := apply_snapshot b a t (r_ob r)\<rparr>, None)))
      else if typ = ''trade'' then
        (case ev_price ev of
           None \<Rightarrow> (r, Some (KeyError ''price''))
         | Some price \<Rightarrow>
             (case ev_size ev of
                None \<Rightarrow> (r, Some (KeyError ''size''))
              | Some sz \<Rightarrow>
                  (case process_trade price sz t (r_ob r) of
                     (b, fs) \<Rightarrow> deliver_fills S t fs (r\<lparr>r_ob := b\<rparr>))))
      else (r, None))"

text \<open>\<open>ev.get('ts', i*0.001)\<close>.\<close>

definition event_time :: "nat \<Rightarrow> event \<Rightarrow> rat" where
  "event_time i ev = (case ev_ts ev of Some t \<Rightarrow> t | None \<Rightarrow> of_nat i * (1 / 1000))"

text \<open>One pass of the loop body for the \<open>i\<close>-th event.\<close>

definition replay_event ::
  "'s strategy_ops \<Rightarrow> nat \<Rightarrow> event \<Rightarrow> 's replayer \<Rightarrow> 's replayer \<times> error option" where
  "replay_event S i ev r =
     (let t = event_time i ev
      in case ev_type ev of
           None \<Rightarrow> (r, Some (KeyError ''type''))
         | Some typ \<Rightarrow>
             (case dispatch S typ ev t r of
                (r1, Some e) \<Rightarrow> (r1, Some e)
              | (r1, None) \<Rightarrow>
                  (case s_on_event S (r_ob r1) t (r_strategy r1) of
                     ((b, s), e) \<Rightarrow> (r1\<lparr>r_ob := b, r_strategy := s\<rparr>, e))))"

text \<open>
  \<open>run\<close>: the events the generator yields are a list; the loop stops at its end, at
  the first index \<open>i >= max_events\<close>, or at the first exception. Writing the fills log
  to a file and computing \<open>metrics()\<close> (floating-point statistics) are outside the
  model: \<open>run\<close> returns the replayer's final state and the exception, if any.
\<close>

fun run_events ::
  "'s strategy_ops \<Rightarrow> int \<Rightarrow> nat \<Rightarrow> event list \<Rightarrow> 's replayer \<Rightarrow> 's replayer \<times> error option" where
  "run_events S max_events i [] r = (r, None)"
| "run_events S max_events i (ev # evs) r =
     (if int i \<ge> max_events then (r, None)
      else (case replay_event S i ev r of
              (r1, Some e) \<Rightarrow> (r1, Some e)
            | (r1, None) \<Rightarrow> run_events S max_events (i + 1) evs r1))"

definition run ::
  "'s strategy_ops \<Rightarrow> int \<Rightarrow> event list \<Rightarrow> 's replayer \<Rightarrow> 's replayer \<times> error option" where
  "run S max_events evs r = run_events S max_events 0 evs r"

section \<open>Definitions used to state the properties\<close>

subsection \<open>Observing the calls a run makes\<close>

text \<open>
  To see the calls a run makes, any strategy is wrapped so that it records every call
  of its two methods, in order, and passes the call on; nothing else changes. An
  \<open>on_event\<close> call is recorded with the book and the timestamp it received and with
  whether it returned (\<open>True\<close>) or raised (\<open>False\<close>). \<open>traced\<close> starts a replayer with
  an empty record, \<open>untraced\<close> forgets the record, \<open>on_event_calls\<close> are the recorded
  calls of \<open>on_event\<close>.
\<close>

datatype call = On_Event orderbook rat bool | On_Fill string rat rat rat

definition tracing :: "'s strategy_ops \<Rightarrow> (call list \<times> 's) strategy_ops" where
  "tracing S =
     \<lparr>s_on_event = (\<lambda>ob t (calls, s).
        case s_on_event S ob t s of
          ((b, s'), e) \<Rightarrow> ((b, (calls @ [On_Event ob t (e = None)], s')), e)),
      s_on_fill = (\<lambda>sd price qty t (calls, s).
        case s_on_fill S sd price qty t s of
          (s', e) \<Rightarrow> ((calls @ [On_Fill sd price qty t], s'), e))\<rparr>"

definition traced :: "'s replayer \<Rightarrow> (call list \<times> 's) replayer" where
  "traced r = \<lparr>r_ob = r_ob r, r_strategy = ([], r_strategy r), stats_fills = stats_fills r\<rparr>"

definition untraced :: "(call list \<times> 's) replayer \<Rightarrow> 's replayer" where
  "untraced r = \<lparr>r_ob = r_ob r, r_strategy = snd (r_strategy r), stats_fills = stats_fills r\<rparr>"

definition calls_made :: "(call list \<times> 's) replayer \<Rightarrow> call list" where
  "calls_made r = fst (r_strategy r)"

fun on_event_calls :: "call list \<Rightarrow> (orderbook \<times> rat \<times> bool) list" where
  "on_event_calls [] = []"
| "on_event_calls (On_Event ob t ok # cs) = (ob, t, ok) # on_event_calls cs"
| "on_event_calls (On_Fill sd price qty t # cs) = on_event_calls cs"

text \<open>
  The number of events a run processes to the end of the loop body, and the
  timestamps the loop gives to the first \<open>n\<close> events from index \<open>i\<close> on.
\<close>

fun events_completed :: "'s strategy_ops \<Rightarrow> int \<Rightarrow> nat \<Rightarrow> event list \<Rightarrow> 's replayer \<Rightarrow> nat" where
  "events_completed S max_events i [] r = 0"
| "events_completed S max_events i (ev # evs) r =
     (if int i \<ge> max_events then 0
      else (case replay_event S i ev r of
              (r1, Some e) \<Rightarrow> 0
            | (r1, None) \<Rightarrow> Suc (events_completed S max_events (i + 1) evs r1)))"

fun event_times :: "nat \<Rightarrow> nat \<Rightarrow> event list \<Rightarrow> rat list" where
  "event_times i 0 evs = []"
| "event_times i (Suc n) [] = []"
| "event_times i (Suc n) (ev # evs) = event_time i ev # event_times (i + 1) n evs"

text \<open>
  The recorded \<open>on_event\<close> calls of a whole run that starts with an empty record.
\<close>

definition run_calls ::
  "'s strategy_ops \<Rightarrow> int \<Rightarrow> event list \<Rightarrow> 's replayer \<Rightarrow> (orderbook \<times> rat \<times> bool) list" where
  "run_calls S max_events evs r =
     on_event_calls (calls_made (fst (run (tracing S) max_events evs (traced r))))"

text \<open>
  A call of \<open>on_event\<close> that adds a point to the market maker's two series: it found
  a best bid and a best ask, and it returned.
\<close>

definition two_sided :: "orderbook \<Rightarrow> bool" where
  "two_sided ob = (bid_prices ob \<noteq> [] \<and> ask_prices ob \<noteq> [])"

definition adds_point :: "orderbook \<times> rat \<times> bool \<Rightarrow> bool" where
  "adds_point c = (two_sided (fst c) \<and> snd (snd c))"

text \<open>
  Events as the event source builds them, and an event of a kind the replayer does
  not know.
\<close>

definition trade_event :: "rat \<Rightarrow> int \<Rightarrow> rat \<Rightarrow> event" where
  "trade_event price sz t =
     \<lparr>ev_type = Some ''trade'', ev_ts = Some t, ev_bids = None, ev_asks = None,
      ev_price = Some price, ev_size = Some sz\<rparr>"

definition snapshot_event :: "(rat \<times> int) list \<Rightarrow> (rat \<times> int) list \<Rightarrow> rat \<Rightarrow> event" where
  "snapshot_event b a t =
     \<lparr>ev_type = Some ''snapshot'', ev_ts = Some t, ev_bids = Some b, ev_asks = Some a,
      ev_price = None, ev_size = None\<rparr>"


definition example_events :: "event list" where
  "example_events = [trade_event 101 5 1, snapshot_event [(99, 10)] [(101, 10)] 2]"

subsection \<open>The book's invariant\<close>

text \<open>
  \<open>levels_active\<close> is the remove-on-empty invariant of one half-book: every listed
  price has a non-empty queue, and every key of the dictionary is listed and holds a
  non-empty queue. \<open>side_wf\<close> adds what the proofs carry along: the level list and
  the dictionary's keys are the same set, without repetitions.
\<close>

definition levels_active :: "rat list \<Rightarrow> book_side \<Rightarrow> bool" where
  "levels_active prices book_side =
     ((\<forall>p \<in> set prices. get_queue book_side p \<noteq> [])
      \<and> (\<forall>(p, q) \<in> set book_side. p \<in> set prices \<and> q \<noteq> []))"

definition side_wf :: "rat list \<Rightarrow> book_side \<Rightarrow> bool" where
  "side_wf prices book_side =
     (distinct prices \<and> distinct (map fst book_side) \<and> set prices = fst ` set book_side
      \<and> (\<forall>p \<in> set prices. get_queue book_side p \<noteq> []))"

definition book_wf :: "orderbook \<Rightarrow> bool" where
  "book_wf ob = (side_wf (bid_prices ob) (bids ob) \<and> side_wf (ask_prices ob) (asks ob))"

text \<open>The public operations that change the book, and a sequence of them.\<close>

datatype book_op =
    Apply_Snapshot "(rat \<times> int) list" "(rat \<times> int) list" rat
  | Place_Limit_Order string rat int rat
  | Cancel_Order int
  | Process_Trade rat int rat

fun apply_book_op :: "book_op \<Rightarrow> orderbook \<Rightarrow> orderbook" where
  "apply_book_op (Apply_Snapshot bid_levels ask_levels t) ob = apply_snapshot bid_levels ask_levels t ob"
| "apply_book_op (Place_Limit_Order sd price sz t) ob = fst (place_limit_order sd price sz t ob)"
| "apply_book_op (Cancel_Order oid) ob = fst (cancel_order oid ob)"
| "apply_book_op (Process_Trade price sz t) ob = fst (process_trade price sz t ob)"

definition run_ops :: "book_op list \<Rightarrow> orderbook \<Rightarrow> orderbook" where
  "run_ops ops ob = fold apply_book_op ops ob"

definition example_ops :: "book_op list" where
  "example_ops =
     [Apply_Snapshot [(99, 10), (98, 5)] [(101, 10)] 0,
      Place_Limit_Order ''ask'' 102 3 1,
      Process_Trade 101 10 2,
      Cancel_Order 1]"

subsection \<open>The orders resting in a book\<close>

text \<open>
  All resting orders: the queues of the bid dictionary in dictionary order, then those
  of the ask dictionary. \<open>example_book\<close> is a snapshot with one level a side and one
  placed ask (identifier 1) at a level of its own.
\<close>

definition side_orders :: "book_side \<Rightarrow> order list" where
  "side_orders book_side = concat (map snd book_side)"

definition all_orders :: "orderbook \<Rightarrow> order list" where
  "all_orders ob = side_orders (bids ob) @ side_orders (asks ob)"

definition example_book :: orderbook where
  "example_book =
     fst (place_limit_order ''ask'' 102 3 1 (apply_snapshot [(99, 10)] [(101, 10)] 0 empty_book))"

subsection \<open>Snapshots\<close>

text \<open>
  The pairs of a snapshot side that \<open>apply_snapshot\<close> keeps (size above 0), and the
  order it builds for a pair.
\<close>

definition positive_levels :: "(rat \<times> int) list \<Rightarrow> (rat \<times> int) list" where
  "positive_levels levels = filter (\<lambda>(p, s). s > 0) levels"

definition synthetic_order :: "string \<Rightarrow> rat \<Rightarrow> rat \<Rightarrow> int \<Rightarrow> order" where
  "synthetic_order sd t p s = \<lparr>o_oid = 0, o_side = sd, o_price = p, o_size = s, o_ts = t\<rparr>"

subsection \<open>Fills and resting size\<close>

text \<open>
  The parts of a fill and the total quantity of a fill list. \<open>level_size\<close> is the
  aggregate remaining size of a level as \<open>snapshot_for_display\<close> sums it; \<open>resting\<close>
  adds it up over the listed prices that satisfy a condition, each price once.
  \<open>available\<close> is the aggregate size of the levels whose prices satisfy the direction
  condition against the trade price, \<open>liquidity\<close> that of all listed levels.
  \<open>sizes_nonneg\<close> says that every resting order has a remaining size of at least 0
  (the data model's bound); \<open>queues_nonneg\<close> is the same read through \<open>get_queue\<close>.
\<close>

definition fill_side :: "fill \<Rightarrow> string" where "fill_side f = fst f"

definition fill_price :: "fill \<Rightarrow> rat" where "fill_price f = fst (snd f)"

definition fill_qty :: "fill \<Rightarrow> int" where "fill_qty f = snd (snd f)"

definition fills_total :: "fill list \<Rightarrow> int" where
  "fills_total fs = sum_list (map fill_qty fs)"

definition queue_size :: "order list \<Rightarrow> int" where
  "queue_size q = sum_list (map o_size q)"

definition level_size :: "book_side \<Rightarrow> rat \<Rightarrow> int" where
  "level_size book_side p = queue_size (get_queue book_side p)"

definition resting :: "(rat \<Rightarrow> bool) \<Rightarrow> rat list \<Rightarrow> book_side \<Rightarrow> int" where
  "resting P prices book_side = sum_list (map (level_size book_side) (filter P (remdups prices)))"

definition available :: "bool \<Rightarrow> rat \<Rightarrow> rat list \<Rightarrow> book_side \<Rightarrow> int" where
  "available is_ask price prices book_side = resting (crosses is_ask price) prices book_side"

definition liquidity :: "rat list \<Rightarrow> book_side \<Rightarrow> int" where
  "liquidity prices book_side = resting (\<lambda>p. True) prices book_side"

definition sizes_nonneg :: "book_side \<Rightarrow> bool" where
  "sizes_nonneg book_side = list_all (\<lambda>(p, q). list_all (\<lambda>o1. 0 \<le> o_size o1) q) book_side"

definition queues_nonneg :: "book_side \<Rightarrow> bool" where
  "queues_nonneg book_side = (\<forall>p. \<forall>o1 \<in> set (get_queue book_side p). 0 \<le> o_size o1)"

text \<open>A book with two bid levels and three ask levels.\<close>

definition deep_book :: orderbook where
  "deep_book = apply_snapshot [(99, 10), (98, 4)] [(101, 10), (102, 5), (104, 7)] 0 empty_book"

subsection \<open>Price-time priority\<close>

text \<open>
  \<open>fills_at\<close> are the fills of one level, in the order of the fill list.
  \<open>fifo_drained q q' takes\<close> relates a level's queue before (\<open>q\<close>) and after (\<open>q'\<close>) a
  trade to the quantities taken at that level, in order: the takes are the full sizes
  of the first orders of \<open>q\<close> in queue order, one take per order, except that the last
  order touched may be taken in part, in which case it stays at the head of \<open>q'\<close> with
  the remainder; the orders behind follow unchanged and in their order.
  \<open>no_worse\<close> is the order of prices from the best outward on the ask side
  (ascending) or the bid side (descending).
\<close>

definition fills_at :: "rat \<Rightarrow> fill list \<Rightarrow> fill list" where
  "fills_at p fs = filter (\<lambda>f. fill_price f = p) fs"

definition fifo_drained :: "order list \<Rightarrow> order list \<Rightarrow> int list \<Rightarrow> bool" where
  "fifo_drained q q' takes =
     (length takes \<le> length q
      \<and> ((takes = map o_size (take (length takes) q) \<and> q' = drop (length takes) q)
         \<or> (takes \<noteq> []
            \<and> butlast takes = map o_size (take (length takes - 1) q)
            \<and> q' = (q ! (length takes - 1))
                      \<lparr>o_size := o_size (q ! (length takes - 1)) - last takes\<rparr>
                    # drop (length takes) q)))"

definition no_worse :: "bool \<Rightarrow> rat \<Rightarrow> rat \<Rightarrow> bool" where
  "no_worse is_ask a b = (if is_ask then a \<le> b else b \<le> a)"

text \<open>
  A sequence of placements (side, price, size, timestamp), and the orders it creates:
  identifiers count up from the book's counter.
\<close>

fun place_all :: "(string \<times> rat \<times> int \<times> rat) list \<Rightarrow> orderbook \<Rightarrow> orderbook" where
  "place_all [] ob = ob"
| "place_all ((sd, price, sz, t) # rest) ob = place_all rest (fst (place_limit_order sd price sz t ob))"

fun placed_orders :: "int \<Rightarrow> (string \<times> rat \<times> int \<times> rat) list \<Rightarrow> order list" where
  "placed_orders n [] = []"
| "placed_orders n ((sd, price, sz, t) # rest) =
     \<lparr>o_oid = n, o_side = sd, o_price = price, o_size = sz, o_ts = t\<rparr> # placed_orders (n + 1) rest"

text \<open>
  Three asks A, B, C placed at 100 and then one at 99; and a snapshot whose best bid
  lies above its best ask.
\<close>

definition abc_placements :: "(string \<times> rat \<times> int \<times> rat) list" where
  "abc_placements = [(''ask'', 100, 2, 1), (''ask'', 100, 3, 2), (''ask'', 100, 4, 3), (''ask'', 99, 1, 4)]"

definition crossed_book :: orderbook where
  "crossed_book = apply_snapshot [(101, 5)] [(100, 5)] 0 empty_book"

subsection \<open>Further examples\<close>

text \<open>
  A book with two asks placed at one price, the second of a negative size
  (\<open>place_limit_order\<close> checks nothing); three bids A, B, C placed at 50 and then one
  at 51; a replayer on the empty book with a new market maker, one on a book with
  both sides, and one on that book whose market maker has a tick of zero.
\<close>

definition oversold_book :: orderbook where
  "oversold_book = place_all [(''ask'', 100, 3, 1), (''ask'', 100, - 2, 2)] empty_book"

definition bid_placements :: "(string \<times> rat \<times> int \<times> rat) list" where
  "bid_placements = [(''bid'', 50, 2, 1), (''bid'', 50, 3, 2), (''bid'', 50, 4, 3), (''bid'', 51, 1, 4)]"

definition new_replayer :: "market_maker replayer" where
  "new_replayer = \<lparr>r_ob = empty_book, r_strategy = new_market_maker, stats_fills = []\<rparr>"



section \<open>The replayer calls the strategy once per event\<close>

lemma tracing_on_fill:
  "s_on_fill (tracing S) sd price qty t (cs, s) =
     (case s_on_fill S sd price qty t s of (s', e) \<Rightarrow> ((cs @ [On_Fill sd price qty t], s'), e))"
  by (simp add: tracing_def)

lemma tracing_on_event:
  "s_on_event (tracing S) ob t (cs, s) =
     (case s_on_event S ob t s of ((b, s'), e) \<Rightarrow> ((b, (cs @ [On_Event ob t (e = None)], s')), e))"
  by (simp add: tracing_def)

lemma on_event_calls_append [simp]:
  "on_event_calls (a @ b) = on_event_calls a @ on_event_calls b"
  by (induction a rule: on_event_calls.induct) simp_all

lemma untraced_simps [simp]:
  "untraced (rt\<lparr>r_ob := b\<rparr>) = (untraced rt)\<lparr>r_ob := b\<rparr>"
  "untraced (rt\<lparr>stats_fills := l\<rparr>) = (untraced rt)\<lparr>stats_fills := l\<rparr>"
  "untraced (rt\<lparr>r_strategy := cs\<rparr>) = (untraced rt)\<lparr>r_strategy := snd cs\<rparr>"
  "r_ob (untraced rt) = r_ob rt"
  "stats_fills (untraced rt) = stats_fills rt"
  "r_strategy (untraced rt) = snd (r_strategy rt)"
  "untraced (traced r) = r"
  by (simp_all add: untraced_def traced_def)

lemma calls_made_simps [simp]:
  "calls_made (rt\<lparr>r_ob := b\<rparr>) = calls_made rt"
  "calls_made (rt\<lparr>stats_fills := l\<rparr>) = calls_made rt"
  "calls_made (rt\<lparr>r_strategy := cs\<rparr>) = fst cs"
  "calls_made (traced r) = []"
  by (simp_all add: calls_made_def traced_def)

lemma deliver_fills_tracing:
  "deliver_fills (tracing S) t fs rt = (rt', e) \<Longrightarrow>
     deliver_fills S t fs (untraced rt) = (untraced rt', e)
     \<and> on_event_calls (calls_made rt') = on_event_calls (calls_made rt)"
proof (induction fs arbitrary: rt)
  case Nil
  then show ?case by simp
next
  case (Cons f fs)
  obtain sd price qty where f: "f = (sd, price, qty)" by (cases f) auto
  obtain cs s where st: "r_strategy rt = (cs, s)" by (cases "r_strategy rt") auto
  obtain s' e1 where of1: "s_on_fill S sd price (of_int qty) t s = (s', e1)"
    by (cases "s_on_fill S sd price (of_int qty) t s") auto
  let ?r1 = "rt\<lparr>stats_fills := stats_fills rt @ [(t, sd, price, qty)]\<rparr>"
  let ?r2 = "?r1\<lparr>r_strategy := (cs @ [On_Fill sd price (of_int qty) t], s')\<rparr>"
  have cm: "calls_made rt = cs" using st by (simp add: calls_made_def)
  show ?case
  proof (cases e1)
    case None
    with Cons.prems f st of1 have "deliver_fills (tracing S) t fs ?r2 = (rt', e)"
      by (simp add: Let_def tracing_on_fill)
    from Cons.IH[OF this]
    have "deliver_fills S t fs (untraced ?r2) = (untraced rt', e)"
      and "on_event_calls (calls_made rt') = on_event_calls (calls_made ?r2)" by simp_all
    with None f st of1 cm show ?thesis by (simp add: Let_def)
  next
    case (Some x)
    with Cons.prems f st of1 have "rt' = ?r2" "e = Some x"
      by (simp_all add: Let_def tracing_on_fill)
    with Some f st of1 cm show ?thesis by (simp add: Let_def)
  qed
qed

lemma dispatch_tracing:
  assumes "dispatch (tracing S) k ev t rt = (rt', e)"
  shows "dispatch S k ev t (untraced rt) = (untraced rt', e)
       \<and> on_event_calls (calls_made rt') = on_event_calls (calls_made rt)"
proof -
  consider (snap) "k = ''snapshot''" | (trade) "k \<noteq> ''snapshot''" "k = ''trade''"
    | (other) "k \<noteq> ''snapshot''" "k \<noteq> ''trade''" by blast
  then show ?thesis
  proof cases
    case snap
    with assms show ?thesis by (auto simp: dispatch_def split: option.splits)
  next
    case other
    with assms show ?thesis by (auto simp: dispatch_def)
  next
    case trade
    show ?thesis
    proof (cases "ev_price ev")
      case None
      with assms trade show ?thesis by (auto simp: dispatch_def)
    next
      case (Some price)
      note p = this
      show ?thesis
      proof (cases "ev_size ev")
        case None
        with assms trade p show ?thesis by (auto simp: dispatch_def)
      next
        case (Some sz)
        obtain b fs where pt: "process_trade price sz t (r_ob rt) = (b, fs)"
          by (cases "process_trade price sz t (r_ob rt)") auto
        from assms trade p Some pt have "deliver_fills (tracing S) t fs (rt\<lparr>r_ob := b\<rparr>) = (rt', e)"
          by (simp add: dispatch_def)
        from deliver_fills_tracing[OF this] trade p Some pt show ?thesis
          by (simp add: dispatch_def)
      qed
    qed
  qed
qed

lemma replay_event_tracing:
  assumes "replay_event (tracing S) i ev rt = (rt', e)"
  shows "replay_event S i ev (untraced rt) = (untraced rt', e)
     \<and> (\<exists>c. on_event_calls (calls_made rt') = on_event_calls (calls_made rt) @ c
          \<and> (e = None \<longrightarrow> (\<exists>b. c = [(b, event_time i ev, True)]))
          \<and> (e \<noteq> None \<longrightarrow> c = [] \<or> (\<exists>b. c = [(b, event_time i ev, False)])))"
proof (cases "ev_type ev")
  case None
  with assms have "rt' = rt" "e = Some (KeyError ''type'')"
    by (simp_all add: replay_event_def)
  with None show ?thesis by (simp add: replay_event_def)
next
  case (Some k)
  let ?t = "event_time i ev"
  obtain r1 e1 where d: "dispatch (tracing S) k ev ?t rt = (r1, e1)"
    by (cases "dispatch (tracing S) k ev ?t rt") auto
  from dispatch_tracing[OF d]
  have d': "dispatch S k ev ?t (untraced rt) = (untraced r1, e1)"
    and c1: "on_event_calls (calls_made r1) = on_event_calls (calls_made rt)" by simp_all
  show ?thesis
  proof (cases e1)
    case (Some x)
    with assms \<open>ev_type ev = Some k\<close> d have "rt' = r1" "e = Some x"
      by (simp_all add: replay_event_def Let_def)
    with Some \<open>ev_type ev = Some k\<close> d' c1 show ?thesis
      by (simp add: replay_event_def Let_def)
  next
    case None
    obtain cs s where st: "r_strategy r1 = (cs, s)" by (cases "r_strategy r1") auto
    obtain b s' e2 where oe: "s_on_event S (r_ob r1) ?t s = ((b, s'), e2)"
      by (cases "s_on_event S (r_ob r1) ?t s") auto
    have cm: "calls_made r1 = cs" using st by (simp add: calls_made_def)
    from assms \<open>ev_type ev = Some k\<close> d None st oe
    have r': "rt' = r1\<lparr>r_ob := b, r_strategy := (cs @ [On_Event (r_ob r1) ?t (e2 = None)], s')\<rparr>"
      and e: "e = e2"
      by (auto simp: replay_event_def Let_def tracing_on_event)
    have u: "replay_event S i ev (untraced rt) = (untraced rt', e)"
      using \<open>ev_type ev = Some k\<close> d' None st oe r' e by (simp add: replay_event_def Let_def)
    have c: "on_event_calls (calls_made rt')
               = on_event_calls (calls_made rt) @ [(r_ob r1, ?t, e = None)]"
      using r' e c1 cm by simp
    from u c show ?thesis by (cases e) auto
  qed
qed

lemma run_events_tracing:
  "run_events (tracing S) max_events i evs rt = (rt', e) \<Longrightarrow>
     run_events S max_events i evs (untraced rt) = (untraced rt', e)
     \<and> (\<exists>c. on_event_calls (calls_made rt') = on_event_calls (calls_made rt) @ c
          \<and> map (\<lambda>x. snd (snd x)) c
              = replicate (events_completed S max_events i evs (untraced rt)) True
                @ replicate (length c - events_completed S max_events i evs (untraced rt)) False
          \<and> length c \<le> Suc (events_completed S max_events i evs (untraced rt))
          \<and> length c \<le> length evs
          \<and> map (\<lambda>x. fst (snd x)) c = event_times i (length c) evs
          \<and> (e = None \<longrightarrow> length c = events_completed S max_events i evs (untraced rt)
                \<and> length c = min (length evs) (nat (max_events - int i))))"
proof (induction evs arbitrary: i rt)
  case Nil
  then show ?case by simp
next
  case (Cons ev evs)
  show ?case
  proof (cases "int i \<ge> max_events")
    case True
    then show ?thesis using Cons.prems by simp
  next
    case False
    obtain r1 e1 where s1: "replay_event (tracing S) i ev rt = (r1, e1)"
      by (cases "replay_event (tracing S) i ev rt") auto
    from replay_event_tracing[OF s1] obtain c1 where
      u1: "replay_event S i ev (untraced rt) = (untraced r1, e1)"
      and c1: "on_event_calls (calls_made r1) = on_event_calls (calls_made rt) @ c1"
      and ok1: "e1 = None \<longrightarrow> (\<exists>b. c1 = [(b, event_time i ev, True)])"
      and bad1: "e1 \<noteq> None \<longrightarrow> c1 = [] \<or> (\<exists>b. c1 = [(b, event_time i ev, False)])"
      by blast
    show ?thesis
    proof (cases e1)
      case (Some x)
      with Cons.prems False s1 have r: "rt' = r1" "e = Some x" by simp_all
      have n: "events_completed S max_events i (ev # evs) (untraced rt) = 0"
        using False u1 Some by simp
      have "run_events S max_events i (ev # evs) (untraced rt) = (untraced rt', e)"
        using False u1 Some r by simp
      moreover from bad1 Some consider "c1 = []" | b where "c1 = [(b, event_time i ev, False)]"
        by auto
      then have "map (\<lambda>x. snd (snd x)) c1 = replicate (length c1) False \<and> length c1 \<le> 1
          \<and> map (\<lambda>x. fst (snd x)) c1 = event_times i (length c1) (ev # evs)"
        by cases simp_all
      ultimately show ?thesis using c1 r n by auto
    next
      case None
      with Cons.prems False s1
      have rest: "run_events (tracing S) max_events (i + 1) evs r1 = (rt', e)" by simp
      from ok1 None obtain b where cb: "c1 = [(b, event_time i ev, True)]" by auto
      let ?n = "events_completed S max_events (i + 1) evs (untraced r1)"
      from Cons.IH[OF rest] obtain c2 where
        u2: "run_events S max_events (i + 1) evs (untraced r1) = (untraced rt', e)"
        and c2: "on_event_calls (calls_made rt') = on_event_calls (calls_made r1) @ c2"
        and f2: "map (\<lambda>x. snd (snd x)) c2 = replicate ?n True @ replicate (length c2 - ?n) False"
        and l2: "length c2 \<le> Suc ?n" "length c2 \<le> length evs"
        and t2: "map (\<lambda>x. fst (snd x)) c2 = event_times (i + 1) (length c2) evs"
        and n2: "e = None \<longrightarrow> length c2 = ?n \<and> length c2 = min (length evs) (nat (max_events - int (i + 1)))"
        by blast
      have n: "events_completed S max_events i (ev # evs) (untraced rt) = Suc ?n"
        using False u1 None by simp
      have m: "nat (max_events - int i) = Suc (nat (max_events - int (i + 1)))"
        using False by linarith
      let ?c = "c1 @ c2"
      have a1: "run_events S max_events i (ev # evs) (untraced rt) = (untraced rt', e)"
        using False u1 None u2 by simp
      have a2: "on_event_calls (calls_made rt') = on_event_calls (calls_made rt) @ ?c"
        using c1 c2 by simp
      have a3: "map (\<lambda>x. snd (snd x)) ?c = replicate (Suc ?n) True @ replicate (length ?c - Suc ?n) False"
        using cb f2 by simp
      have a4: "length ?c \<le> Suc (Suc ?n)" "length ?c \<le> length (ev # evs)" using cb l2 by simp_all
      have a5: "map (\<lambda>x. fst (snd x)) ?c = event_times i (length ?c) (ev # evs)"
        using cb t2 by simp
      have a6: "e = None \<longrightarrow> length ?c = Suc ?n
                  \<and> length ?c = min (length (ev # evs)) (nat (max_events - int i))"
        using cb n2 m by auto
      from a1 a2 a3 a4 a5 a6 show ?thesis unfolding n by blast
    qed
  qed
qed

lemma run_tracing:
  "run S max_events evs r
     = (untraced (fst (run (tracing S) max_events evs (traced r))),
        snd (run (tracing S) max_events evs (traced r)))"
proof -
  obtain rt' e where a: "run_events (tracing S) max_events 0 evs (traced r) = (rt', e)"
    by (cases "run_events (tracing S) max_events 0 evs (traced r)") auto
  from run_events_tracing[OF a] a show ?thesis by (simp add: run_def)
qed

lemma run_calls_pattern:
  "map (\<lambda>c. snd (snd c)) (run_calls S max_events evs r)
       = replicate (events_completed S max_events 0 evs r) True
         @ replicate (length (run_calls S max_events evs r) - events_completed S max_events 0 evs r) False
   \<and> length (run_calls S max_events evs r) \<le> Suc (events_completed S max_events 0 evs r)
   \<and> map (\<lambda>c. fst (snd c)) (run_calls S max_events evs r)
       = event_times 0 (length (run_calls S max_events evs r)) evs
   \<and> (snd (run S max_events evs r) = None \<longrightarrow>
        length (run_calls S max_events evs r) = min (length evs) (nat max_events)
        \<and> events_completed S max_events 0 evs r = min (length evs) (nat max_events))"
proof -
  obtain rt' e where a: "run_events (tracing S) max_events 0 evs (traced r) = (rt', e)"
    by (cases "run_events (tracing S) max_events 0 evs (traced r)") auto
  have rc: "run_calls S max_events evs r = on_event_calls (calls_made rt')"
    using a by (simp add: run_calls_def run_def)
  have e: "snd (run S max_events evs r) = e"
    using run_tracing[of S max_events evs r] a by (simp add: run_def)
  from run_events_tracing[OF a] show ?thesis unfolding rc e by auto
qed

subsection \<open>The strategy's curves\<close>

lemma place_quotes_curves:
  "place_quotes ob b a t mm = (ob', mm') \<Longrightarrow>
     equity_curve mm' = equity_curve mm \<and> inv_curve mm' = inv_curve mm \<and> fills mm' = fills mm"
  by (auto simp: place_quotes_def Let_def split: if_splits prod.splits)

lemma on_event_curves:
  assumes "on_event fq ob t mm = ((ob', mm'), e)"
  shows "map fst (equity_curve mm')
           = map fst (equity_curve mm) @ (if two_sided ob \<and> e = None then [t] else [])
       \<and> map fst (inv_curve mm')
           = map fst (inv_curve mm) @ (if two_sided ob \<and> e = None then [t] else [])
       \<and> fills mm' = fills mm"
proof (cases "two_sided ob")
  case False
  then have "on_event fq ob t mm = ((ob, mm), None)"
    by (auto simp: on_event_def top_of_book_def two_sided_def)
  with assms False show ?thesis by simp
next
  case True
  then obtain bb ba where tb: "top_of_book ob = (Some bb, Some ba)"
    by (auto simp: top_of_book_def two_sided_def)
  let ?mid = "(bb + ba) / 2"
  let ?mm1 = "mm\<lparr>last_mid := Some ?mid, mids := push_mid (vol_window mm) (mids mm) ?mid\<rparr>"
  show ?thesis
  proof (cases "desired_quotes fq ?mid ?mm1")
    case (Inl x)
    with assms tb have "mm' = ?mm1" "e = Some x" by (simp_all add: on_event_def Let_def)
    then show ?thesis by simp
  next
    case (Inr q)
    obtain db da where q: "q = (db, da)" by (cases q) auto
    obtain ob2 mm2 where pq: "place_quotes ob (min db bb) (max da ba) t ?mm1 = (ob2, mm2)"
      by (cases "place_quotes ob (min db bb) (max da ba) t ?mm1") auto
    from assms tb Inr q pq
    have mm': "mm' = mm2\<lparr>equity_curve := equity_curve mm2 @ [(t, cash mm2 + inventory mm2 * ?mid)],
                         inv_curve := inv_curve mm2 @ [(t, inventory mm2)]\<rparr>"
      and e: "e = None"
      by (simp_all add: on_event_def Let_def)
    from place_quotes_curves[OF pq]
    have "equity_curve mm2 = equity_curve mm" "inv_curve mm2 = inv_curve mm" "fills mm2 = fills mm"
      by simp_all
    with mm' e True show ?thesis by simp
  qed
qed

lemma on_fill_curves:
  "equity_curve (on_fill sd p q t mm) = equity_curve mm \<and> inv_curve (on_fill sd p q t mm) = inv_curve mm"
  by (simp add: on_fill_def Let_def)

lemma deliver_fills_curves:
  "equity_curve (r_strategy (fst (deliver_fills (simple_market_maker fq) t fs r)))
      = equity_curve (r_strategy r)
   \<and> inv_curve (r_strategy (fst (deliver_fills (simple_market_maker fq) t fs r)))
      = inv_curve (r_strategy r)"
proof (induction fs arbitrary: r)
  case Nil
  then show ?case by simp
next
  case (Cons f fs)
  obtain sd price qty where f: "f = (sd, price, qty)" by (cases f) auto
  have sf: "s_on_fill (simple_market_maker fq) = (\<lambda>sd price qty t mm. (on_fill sd price qty t mm, None))"
    by (simp add: simple_market_maker_def)
  show ?case unfolding f deliver_fills.simps sf
    by (simp add: Cons on_fill_curves Let_def)
qed

lemma dispatch_curves:
  "equity_curve (r_strategy (fst (dispatch (simple_market_maker fq) k ev t r))) = equity_curve (r_strategy r)
   \<and> inv_curve (r_strategy (fst (dispatch (simple_market_maker fq) k ev t r))) = inv_curve (r_strategy r)"
  by (auto simp: dispatch_def deliver_fills_curves split: if_splits option.splits prod.splits)

lemma replay_event_curves:
  assumes "replay_event (tracing (simple_market_maker fq)) i ev rt = (rt', e)"
  shows "\<exists>c. on_event_calls (calls_made rt') = on_event_calls (calls_made rt) @ c
     \<and> map fst (equity_curve (snd (r_strategy rt')))
         = map fst (equity_curve (snd (r_strategy rt))) @ map (\<lambda>x. fst (snd x)) (filter adds_point c)
     \<and> map fst (inv_curve (snd (r_strategy rt')))
         = map fst (inv_curve (snd (r_strategy rt))) @ map (\<lambda>x. fst (snd x)) (filter adds_point c)"
proof (cases "ev_type ev")
  case None
  with assms have "rt' = rt" by (simp add: replay_event_def)
  then show ?thesis by simp
next
  case (Some k)
  let ?S = "simple_market_maker fq"
  let ?t = "event_time i ev"
  obtain r1 e1 where d: "dispatch (tracing ?S) k ev ?t rt = (r1, e1)"
    by (cases "dispatch (tracing ?S) k ev ?t rt") auto
  from dispatch_tracing[OF d]
  have d': "dispatch ?S k ev ?t (untraced rt) = (untraced r1, e1)"
    and c1: "on_event_calls (calls_made r1) = on_event_calls (calls_made rt)" by simp_all
  from dispatch_curves[of fq k ev ?t "untraced rt"] d'
  have dc: "equity_curve (snd (r_strategy r1)) = equity_curve (snd (r_strategy rt))"
           "inv_curve (snd (r_strategy r1)) = inv_curve (snd (r_strategy rt))"
    by simp_all
  show ?thesis
  proof (cases e1)
    case (Some x)
    with assms \<open>ev_type ev = Some k\<close> d have "rt' = r1"
      by (simp add: replay_event_def Let_def)
    with c1 dc show ?thesis by simp
  next
    case None
    obtain cs s where st: "r_strategy r1 = (cs, s)" by (cases "r_strategy r1") auto
    obtain b s' e2 where oe: "on_event fq (r_ob r1) ?t s = ((b, s'), e2)"
      by (cases "on_event fq (r_ob r1) ?t s") auto
    then have oe': "s_on_event ?S (r_ob r1) ?t s = ((b, s'), e2)"
      by (simp add: simple_market_maker_def)
    have cm: "calls_made r1 = cs" using st by (simp add: calls_made_def)
    from assms \<open>ev_type ev = Some k\<close> d None st oe'
    have r': "rt' = r1\<lparr>r_ob := b, r_strategy := (cs @ [On_Event (r_ob r1) ?t (e2 = None)], s')\<rparr>"
      by (auto simp: replay_event_def Let_def tracing_on_event)
    let ?c = "[(r_ob r1, ?t, e2 = None)]"
    have c: "on_event_calls (calls_made rt') = on_event_calls (calls_made rt) @ ?c"
      using r' c1 cm by simp
    from on_event_curves[OF oe] dc st r'
    have "map fst (equity_curve (snd (r_strategy rt')))
         = map fst (equity_curve (snd (r_strategy rt))) @ map (\<lambda>x. fst (snd x)) (filter adds_point ?c)"
      and "map fst (inv_curve (snd (r_strategy rt')))
         = map fst (inv_curve (snd (r_strategy rt))) @ map (\<lambda>x. fst (snd x)) (filter adds_point ?c)"
      by (simp_all add: adds_point_def)
    with c show ?thesis by blast
  qed
qed

lemma run_events_curves:
  "run_events (tracing (simple_market_maker fq)) max_events i evs rt = (rt', e) \<Longrightarrow>
     \<exists>c. on_event_calls (calls_made rt') = on_event_calls (calls_made rt) @ c
       \<and> map fst (equity_curve (snd (r_strategy rt')))
           = map fst (equity_curve (snd (r_strategy rt))) @ map (\<lambda>x. fst (snd x)) (filter adds_point c)
       \<and> map fst (inv_curve (snd (r_strategy rt')))
           = map fst (inv_curve (snd (r_strategy rt))) @ map (\<lambda>x. fst (snd x)) (filter adds_point c)"
proof (induction evs arbitrary: i rt)
  case Nil
  then show ?case by simp
next
  case (Cons ev evs)
  let ?S = "simple_market_maker fq"
  show ?case
  proof (cases "int i \<ge> max_events")
    case True
    then show ?thesis using Cons.prems by simp
  next
    case False
    obtain r1 e1 where s1: "replay_event (tracing ?S) i ev rt = (r1, e1)"
      by (cases "replay_event (tracing ?S) i ev rt") auto
    from replay_event_curves[OF s1] obtain c1 where
      c1: "on_event_calls (calls_made r1) = on_event_calls (calls_made rt) @ c1"
      and q1: "map fst (equity_curve (snd (r_strategy r1)))
         = map fst (equity_curve (snd (r_strategy rt))) @ map (\<lambda>x. fst (snd x)) (filter adds_point c1)"
      and i1: "map fst (inv_curve (snd (r_strategy r1)))
         = map fst (inv_curve (snd (r_strategy rt))) @ map (\<lambda>x. fst (snd x)) (filter adds_point c1)"
      by blast
    show ?thesis
    proof (cases e1)
      case (Some x)
      with Cons.prems False s1 have "rt' = r1" by simp
      with c1 q1 i1 show ?thesis by blast
    next
      case None
      with Cons.prems False s1
      have rest: "run_events (tracing ?S) max_events (i + 1) evs r1 = (rt', e)" by simp
      from Cons.IH[OF rest] obtain c2 where
        c2: "on_event_calls (calls_made rt') = on_event_calls (calls_made r1) @ c2"
        and q2: "map fst (equity_curve (snd (r_strategy rt')))
           = map fst (equity_curve (snd (r_strategy r1))) @ map (\<lambda>x. fst (snd x)) (filter adds_point c2)"
        and i2: "map fst (inv_curve (snd (r_strategy rt')))
           = map fst (inv_curve (snd (r_strategy r1))) @ map (\<lambda>x. fst (snd x)) (filter adds_point c2)"
        by blast
      have "on_event_calls (calls_made rt') = on_event_calls (calls_made rt) @ (c1 @ c2)"
        using c1 c2 by simp
      moreover have "map fst (equity_curve (snd (r_strategy rt')))
           = map fst (equity_curve (snd (r_strategy rt))) @ map (\<lambda>x. fst (snd x)) (filter adds_point (c1 @ c2))"
        using q1 q2 by simp
      moreover have "map fst (inv_curve (snd (r_strategy rt')))
           = map fst (inv_curve (snd (r_strategy rt))) @ map (\<lambda>x. fst (snd x)) (filter adds_point (c1 @ c2))"
        using i1 i2 by simp
      ultimately show ?thesis by blast
    qed
  qed
qed

lemma run_curves:
  "map fst (equity_curve (r_strategy (fst (run (simple_market_maker fq) max_events evs rm))))
       = map fst (equity_curve (r_strategy rm))
         @ map (\<lambda>c. fst (snd c)) (filter adds_point (run_calls (simple_market_maker fq) max_events evs rm))
   \<and> map fst (inv_curve (r_strategy (fst (run (simple_market_maker fq) max_events evs rm))))
       = map fst (inv_curve (r_strategy rm))
         @ map (\<lambda>c. fst (snd c)) (filter adds_point (run_calls (simple_market_maker fq) max_events evs rm))"
proof -
  let ?S = "simple_market_maker fq"
  obtain rt' e where a: "run_events (tracing ?S) max_events 0 evs (traced rm) = (rt', e)"
    by (cases "run_events (tracing ?S) max_events 0 evs (traced rm)") auto
  have rc: "run_calls ?S max_events evs rm = on_event_calls (calls_made rt')"
    using a by (simp add: run_calls_def run_def)
  have r: "fst (run ?S max_events evs rm) = untraced rt'"
    using run_tracing[of ?S max_events evs rm] a by (simp add: run_def)
  have t: "snd (r_strategy (traced rm)) = r_strategy rm" by (simp add: traced_def)
  from run_events_curves[OF a] show ?thesis unfolding rc r by (auto simp: t)
qed

lemma example_run:
  "snd (run (simple_market_maker (exact_quotes (\<lambda>rets. 0))) 10000 example_events new_replayer) = None
   \<and> length example_events = 2
   \<and> events_completed (simple_market_maker (exact_quotes (\<lambda>rets. 0))) 10000 0 example_events new_replayer = 2
   \<and> map (\<lambda>c. (two_sided (fst c), snd c))
        (run_calls (simple_market_maker (exact_quotes (\<lambda>rets. 0))) 10000 example_events new_replayer)
       = [(False, 1, True), (True, 2, True)]
   \<and> equity_curve (r_strategy new_replayer) = []
   \<and> inv_curve (r_strategy new_replayer) = []
   \<and> equity_curve (r_strategy (fst (run (simple_market_maker (exact_quotes (\<lambda>rets. 0))) 10000
        example_events new_replayer))) = [(2, 0)]
   \<and> inv_curve (r_strategy (fst (run (simple_market_maker (exact_quotes (\<lambda>rets. 0))) 10000
        example_events new_replayer))) = [(2, 0)]"
  by code_simp

lemma example_run_zero_tick:
  "snd (run (simple_market_maker (exact_quotes (\<lambda>rets. 0))) 10000 example_events
          (new_replayer\<lparr>r_strategy := new_market_maker\<lparr>tick := 0\<rparr>\<rparr>)) = Some ZeroDivisionError
   \<and> events_completed (simple_market_maker (exact_quotes (\<lambda>rets. 0))) 10000 0 example_events
          (new_replayer\<lparr>r_strategy := new_market_maker\<lparr>tick := 0\<rparr>\<rparr>) = 1
   \<and> map (\<lambda>c. (two_sided (fst c), snd c))
        (run_calls (simple_market_maker (exact_quotes (\<lambda>rets. 0))) 10000 example_events
          (new_replayer\<lparr>r_strategy := new_market_maker\<lparr>tick := 0\<rparr>\<rparr>))
       = [(False, 1, True), (True, 2, False)]
   \<and> equity_curve (r_strategy (fst (run (simple_market_maker (exact_quotes (\<lambda>rets. 0))) 10000
        example_events (new_replayer\<lparr>r_strategy := new_market_maker\<lparr>tick := 0\<rparr>\<rparr>)))) = []"
  by code_simp

text \<open>
  C8 (as stated): after n processed events the equity and inventory series each hold
  exactly n points. This fails: \<open>on_event\<close> returns before it appends when the book has
  no best bid or no best ask. One trade event replayed on the empty book is processed
  to the end without an exception, \<open>on_event\<close> is called, and both series stay empty.
\<close>

theorem curves_one_point_per_event_counterexample:
  "snd (run (simple_market_maker (exact_quotes (\<lambda>rets. 0))) 10000 [trade_event 101 5 1] new_replayer) = None
   \<and> events_completed (simple_market_maker (exact_quotes (\<lambda>rets. 0))) 10000 0
        [trade_event 101 5 1] new_replayer = 1
   \<and> equity_curve (r_strategy (fst (run (simple_market_maker (exact_quotes (\<lambda>rets. 0))) 10000
        [trade_event 101 5 1] new_replayer))) = []
   \<and> inv_curve (r_strategy (fst (run (simple_market_maker (exact_quotes (\<lambda>rets. 0))) 10000
        [trade_event 101 5 1] new_replayer))) = []"
  by (simp add: run_def replay_event_def dispatch_def trade_event_def event_time_def process_trade_def
      hits_asks_def hits_bids_def empty_book_def simple_market_maker_def on_event_def top_of_book_def
      new_market_maker_def new_replayer_def)

text \<open>
  C8 (amended): in every run of the replayer, with any strategy, \<open>on_event\<close> is called
  exactly once at the end of each event the loop processes, whatever its kind, with
  that event's timestamp. The recorded calls of a run are one returning call for each
  event processed to the end of the loop body, followed by at most one more call, the
  one whose exception ended the run; a run that ends without an exception has made
  exactly as many calls as it had events to process (the smaller of the number of
  events and \<open>max_events\<close>). Recording the calls does not change the run. With the
  market maker, each of the equity and inventory series gains exactly one point,
  carrying the call's timestamp, for every \<open>on_event\<close> call that found both a best bid
  and a best ask and returned, and no point for any other call; so after n processed
  events each series has gained at most n points, not always n.
\<close>

theorem on_event_once_per_processed_event:
  "run S max_events evs r
     = (untraced (fst (run (tracing S) max_events evs (traced r))),
        snd (run (tracing S) max_events evs (traced r)))
   \<and> map (\<lambda>c. snd (snd c)) (run_calls S max_events evs r)
       = replicate (events_completed S max_events 0 evs r) True
         @ replicate (length (run_calls S max_events evs r) - events_completed S max_events 0 evs r) False
   \<and> length (run_calls S max_events evs r) \<le> Suc (events_completed S max_events 0 evs r)
   \<and> map (\<lambda>c. fst (snd c)) (run_calls S max_events evs r)
       = event_times 0 (length (run_calls S max_events evs r)) evs
   \<and> (snd (run S max_events evs r) = None \<longrightarrow>
        length (run_calls S max_events evs r) = min (length evs) (nat max_events)
        \<and> events_completed S max_events 0 evs r = min (length evs) (nat max_events))
   \<and> map fst (equity_curve (r_strategy (fst (run (simple_market_maker fq) max_events evs rm))))
       = map fst (equity_curve (r_strategy rm))
         @ map (\<lambda>c. fst (snd c)) (filter adds_point (run_calls (simple_market_maker fq) max_events evs rm))
   \<and> map fst (inv_curve (r_strategy (fst (run (simple_market_maker fq) max_events evs rm))))
       = map fst (inv_curve (r_strategy rm))
         @ map (\<lambda>c. fst (snd c)) (filter adds_point (run_calls (simple_market_maker fq) max_events evs rm))"
proof -
  note a = run_tracing[of S max_events evs r]
  note b = run_calls_pattern[of S max_events evs r]
  note c = run_curves[of fq max_events evs rm]
  from a b c show ?thesis by (elim conjE) (intro conjI; assumption)
qed

theorem on_event_once_per_processed_event_witness:
  "snd (run (simple_market_maker (exact_quotes (\<lambda>rets. 0))) 10000 example_events new_replayer) = None
   \<and> length (run_calls (simple_market_maker (exact_quotes (\<lambda>rets. 0))) 10000 example_events new_replayer) = 2
   \<and> map (\<lambda>c. (two_sided (fst c), snd c))
        (run_calls (simple_market_maker (exact_quotes (\<lambda>rets. 0))) 10000 example_events new_replayer)
       = [(False, 1, True), (True, 2, True)]
   \<and> map fst (equity_curve (r_strategy (fst (run (simple_market_maker (exact_quotes (\<lambda>rets. 0))) 10000
        example_events new_replayer)))) = [2]
   \<and> map fst (inv_curve (r_strategy (fst (run (simple_market_maker (exact_quotes (\<lambda>rets. 0))) 10000
        example_events new_replayer)))) = [2]
   \<and> snd (run (simple_market_maker (exact_quotes (\<lambda>rets. 0))) 10000 example_events
          (new_replayer\<lparr>r_strategy := new_market_maker\<lparr>tick := 0\<rparr>\<rparr>)) = Some ZeroDivisionError
   \<and> events_completed (simple_market_maker (exact_quotes (\<lambda>rets. 0))) 10000 0 example_events
          (new_replayer\<lparr>r_strategy := new_market_maker\<lparr>tick := 0\<rparr>\<rparr>) = 1
   \<and> map (\<lambda>c. snd (snd c))
        (run_calls (simple_market_maker (exact_quotes (\<lambda>rets. 0))) 10000 example_events
          (new_replayer\<lparr>r_strategy := new_market_maker\<lparr>tick := 0\<rparr>\<rparr>)) = [True, False]
   \<and> map fst (equity_curve (r_strategy (fst (run (simple_market_maker (exact_quotes (\<lambda>rets. 0))) 10000
        example_events (new_replayer\<lparr>r_strategy := new_market_maker\<lparr>tick := 0\<rparr>\<rparr>))))) = []"
proof -
  let ?fq = "exact_quotes (\<lambda>rets. 0)"
  let ?S = "simple_market_maker ?fq"
  let ?rc = "run_calls ?S 10000 example_events new_replayer"
  let ?z = "new_replayer\<lparr>r_strategy := new_market_maker\<lparr>tick := 0\<rparr>\<rparr>"
  let ?rz = "run_calls ?S 10000 example_events ?z"
  note f = example_run
  from f have m: "map (\<lambda>c. (two_sided (fst c), snd c)) ?rc = [(False, 1, True), (True, 2, True)]"
    by simp
  from m obtain c1 c2 where rc: "?rc = [c1, c2]"
    and c1: "\<not> two_sided (fst c1)" "snd c1 = (1, True)"
    and c2: "two_sided (fst c2)" "snd c2 = (2, True)"
    by auto
  have a: "map (\<lambda>c. fst (snd c)) (filter adds_point ?rc) = [2]"
    unfolding rc using c1 c2 by (simp add: adds_point_def)
  from on_event_once_per_processed_event[of ?S 10000 example_events new_replayer ?fq new_replayer]
    f a
  have p1: "snd (run ?S 10000 example_events new_replayer) = None
     \<and> length ?rc = 2
     \<and> map (\<lambda>c. (two_sided (fst c), snd c)) ?rc = [(False, 1, True), (True, 2, True)]
     \<and> map fst (equity_curve (r_strategy (fst (run ?S 10000 example_events new_replayer)))) = [2]
     \<and> map fst (inv_curve (r_strategy (fst (run ?S 10000 example_events new_replayer)))) = [2]"
    by simp
  note g = example_run_zero_tick
  from g have mz: "map (\<lambda>c. (two_sided (fst c), snd c)) ?rz = [(False, 1, True), (True, 2, False)]"
    and nz: "events_completed ?S 10000 0 example_events ?z = 1"
    and ez: "snd (run ?S 10000 example_events ?z) = Some ZeroDivisionError"
    and qz: "equity_curve (r_strategy (fst (run ?S 10000 example_events ?z))) = []"
    by simp_all
  have "length (map (\<lambda>c. (two_sided (fst c), snd c)) ?rz) = 2" unfolding mz by simp
  then have lz: "length ?rz = 2" by simp
  from on_event_once_per_processed_event[of ?S 10000 example_events ?z ?fq ?z]
  have "map (\<lambda>c. snd (snd c)) ?rz
       = replicate (events_completed ?S 10000 0 example_events ?z) True
         @ replicate (length ?rz - events_completed ?S 10000 0 example_events ?z) False"
    by (rule conjunct2[THEN conjunct1])
  then have p2: "map (\<lambda>c. snd (snd c)) ?rz = [True, False]" unfolding nz lz by simp
  from p1 p2 nz ez qz show ?thesis by simp
qed

section \<open>Events of an unknown kind\<close>





section \<open>Average-cost accounting\<close>

text \<open>
  C7: from a long position q > 0 at average cost a, a sell fill of qty > q at price p
  adds p * qty to cash and (p - a) * q to realized PnL, and leaves the position short
  qty - q at average cost p. The witness is the spec's example: long 5 at 100, then
  sell 8 at 110, gives realized PnL 50 and a position short 3 at average cost 110.
\<close>

theorem on_fill_sell_flips_long:
  assumes "inventory mm > 0" and "qty > inventory mm"
  shows "cash (on_fill ''sell'' p qty t mm) = cash mm + p * qty
       \<and> realized (on_fill ''sell'' p qty t mm) = realized mm + (p - avg_price mm) * inventory mm
       \<and> inventory (on_fill ''sell'' p qty t mm) = - (qty - inventory mm)
       \<and> avg_price (on_fill ''sell'' p qty t mm) = p"
  using assms by (simp add: on_fill_def Let_def min_def)

theorem on_fill_sell_flips_long_witness:
  "inventory (on_fill ''buy'' 100 5 0 new_market_maker) = 5
   \<and> avg_price (on_fill ''buy'' 100 5 0 new_market_maker) = 100
   \<and> realized (on_fill ''sell'' 110 8 1 (on_fill ''buy'' 100 5 0 new_market_maker)) = 50
   \<and> inventory (on_fill ''sell'' 110 8 1 (on_fill ''buy'' 100 5 0 new_market_maker)) = - 3
   \<and> avg_price (on_fill ''sell'' 110 8 1 (on_fill ''buy'' 100 5 0 new_market_maker)) = 110"
proof -
  let ?mm = "on_fill ''buy'' 100 5 0 new_market_maker"
  have inv: "inventory ?mm = 5" and avg: "avg_price ?mm = 100" and re: "realized ?mm = 0"
    by (simp_all add: on_fill_def new_market_maker_def Let_def eps_def)
  have h1: "inventory ?mm > 0" and h2: "(8::rat) > inventory ?mm" using inv by simp_all
  from on_fill_sell_flips_long[OF h1 h2, of 110 1] inv avg re show ?thesis by simp
qed

lemma flat_example:
  "inventory (on_fill ''buy'' 100 10 0 new_market_maker) = 10
   \<and> avg_price (on_fill ''buy'' 100 10 0 new_market_maker) = 100
   \<and> inventory (on_fill ''sell'' 105 10 1 (on_fill ''buy'' 100 10 0 new_market_maker)) = 0
   \<and> avg_price (on_fill ''buy'' 90 4 2
        ((on_fill ''sell'' 105 10 1 (on_fill ''buy'' 100 10 0 new_market_maker))\<lparr>avg_price := 0\<rparr>)) = 90"
  by (simp add: on_fill_def new_market_maker_def Let_def eps_def)

text \<open>
  C6 (as stated): the stored average cost is reset the instant inventory returns to
  exactly 0. This fails: flat, buy 10 at 100, sell 10 at 105 ends flat with the stored
  average cost still 100.
\<close>

theorem flat_avg_not_reset_counterexample:
  "inventory (on_fill ''sell'' 105 10 1 (on_fill ''buy'' 100 10 0 new_market_maker)) = 0
   \<and> avg_price (on_fill ''sell'' 105 10 1 (on_fill ''buy'' 100 10 0 new_market_maker)) = 100"
  by (simp add: on_fill_def new_market_maker_def Let_def eps_def)

text \<open>
  C6 (amended): a fill that brings a position back to exactly 0 (a sell on a long
  position, a buy on a short one) leaves the stored average cost as it was: it is not
  reset. The stale value has no effect on what follows: the state after the next buy or
  sell fill on the flat position is the same whatever the stored average cost is, so
  the average cost of a subsequently opened position does not depend on the average
  cost of the previous one.
\<close>

theorem flat_fill_ignores_stored_avg:
  "(((sd = ''sell'' \<and> 0 < inventory mm) \<or> (sd = ''buy'' \<and> inventory mm < 0))
      \<and> inventory (on_fill sd p qty t mm) = 0
      \<longrightarrow> avg_price (on_fill sd p qty t mm) = avg_price mm)
   \<and> (inventory mm = 0 \<and> (sd = ''buy'' \<or> sd = ''sell'')
      \<longrightarrow> on_fill sd p qty t (mm\<lparr>avg_price := a\<rparr>) = on_fill sd p qty t (mm\<lparr>avg_price := b\<rparr>))"
  by (auto simp: on_fill_def Let_def min_def max_def split: if_splits)

theorem flat_fill_ignores_stored_avg_witness:
  "inventory (on_fill ''buy'' 100 10 0 new_market_maker) = 10
   \<and> inventory (on_fill ''sell'' 105 10 1 (on_fill ''buy'' 100 10 0 new_market_maker)) = 0
   \<and> avg_price (on_fill ''sell'' 105 10 1 (on_fill ''buy'' 100 10 0 new_market_maker)) = 100
   \<and> avg_price (on_fill ''buy'' 90 4 2
        (on_fill ''sell'' 105 10 1 (on_fill ''buy'' 100 10 0 new_market_maker))) = 90"
proof -
  let ?long = "on_fill ''buy'' 100 10 0 new_market_maker"
  let ?flat = "on_fill ''sell'' 105 10 1 ?long"
  from flat_example have i1: "inventory ?long = 10" and a1: "avg_price ?long = 100"
    and i2: "inventory ?flat = 0"
    and a0: "avg_price (on_fill ''buy'' 90 4 2 (?flat\<lparr>avg_price := 0\<rparr>)) = 90"
    by simp_all
  from flat_fill_ignores_stored_avg[where qty = 10 and mm = ?long and sd = "''sell''" and p = 105 and t = 1]
    i1 i2 a1
  have a2: "avg_price ?flat = 100" by simp
  have "?flat\<lparr>avg_price := 100\<rparr> = ?flat" using a2 by simp
  with flat_fill_ignores_stored_avg[where qty = 4 and mm = ?flat and sd = "''buy''" and p = 90 and t = 2
      and a = 100 and b = 0] i2 a0
  have a3: "avg_price (on_fill ''buy'' 90 4 2 ?flat) = 90" by simp
  from i1 i2 a2 a3 show ?thesis by simp
qed

section \<open>Remove-on-empty\<close>

lemma set_insort_right: "set (insort_right a x) = insert x (set a)"
proof -
  have "set (take i a) \<union> set (drop i a) = set a" for i
    by (metis append_take_drop_id set_append)
  then show ?thesis by (auto simp: insort_right_def Let_def)
qed

lemma distinct_insort_right: "distinct a \<Longrightarrow> x \<notin> set a \<Longrightarrow> distinct (insort_right a x)"
proof -
  assume d: "distinct a" and x: "x \<notin> set a"
  let ?i = "bisect_right a x 0 (length a)"
  have "distinct (take ?i a @ drop ?i a)" using d by simp
  moreover have "x \<notin> set (take ?i a)" "x \<notin> set (drop ?i a)"
    using x by (auto dest: in_set_takeD in_set_dropD)
  ultimately show ?thesis unfolding distinct_append by (auto simp: insort_right_def Let_def)
qed

lemma set_insert_price [simp]: "set (insert_price prices p) = insert p (set prices)"
  by (auto simp: insert_price_def set_insort_right)

lemma distinct_insert_price [simp]: "distinct prices \<Longrightarrow> distinct (insert_price prices p)"
  by (auto simp: insert_price_def distinct_insort_right)

lemma side_wf_empty [simp]: "side_wf [] []"
  by (simp add: side_wf_def)

lemma side_wf_install:
  "side_wf prices book_side \<Longrightarrow> q \<noteq> [] \<Longrightarrow>
     side_wf (insert_price prices p) (AList.update p q book_side)"
  by (auto simp: side_wf_def distinct_update dom_update)

lemma keys_delete: "fst ` set (AList.delete p book_side) = fst ` set book_side - {p}"
proof -
  have "set (map fst (AList.delete p book_side)) = set (map fst book_side) - {p}"
    unfolding delete_keys by simp
  then show ?thesis by simp
qed

lemma side_wf_write_back:
  assumes "side_wf prices book_side" and "p \<in> set prices"
    and "remove_price_if_empty prices p (AList.update p q book_side) = (prices', book_side')"
  shows "side_wf prices' book_side'"
proof (cases "q = []")
  case True
  with assms(3) have r: "prices' = remove1 p prices" "book_side' = AList.delete p book_side"
    by (auto simp: remove_price_if_empty_def delete_update_same)
  show ?thesis using assms(1,2) unfolding r
    by (auto simp: side_wf_def distinct_delete keys_delete)
next
  case False
  with assms(3) have r: "prices' = prices" "book_side' = AList.update p q book_side"
    by (auto simp: remove_price_if_empty_def)
  show ?thesis using assms(1,2) False unfolding r
    by (auto simp: side_wf_def distinct_update dom_update)
qed

lemma side_wf_install_levels:
  "side_wf (snd acc) (fst acc) \<Longrightarrow>
     side_wf (snd (install_levels sd t levels acc)) (fst (install_levels sd t levels acc))"
proof (induction sd t levels acc rule: install_levels.induct)
  case (1 sd t acc)
  then show ?case by simp
next
  case (2 sd t p s rest book_side prices)
  then show ?case by (auto simp: side_wf_install)
qed

lemma book_wf_apply_snapshot: "book_wf (apply_snapshot bid_levels ask_levels t ob)"
  using side_wf_install_levels[of "([], [])" "''bid''" t bid_levels]
        side_wf_install_levels[of "([], [])" "''ask''" t ask_levels]
  by (simp add: apply_snapshot_def book_wf_def split_beta)

lemma book_wf_place_limit_order:
  "book_wf ob \<Longrightarrow> book_wf (fst (place_limit_order sd price sz t ob))"
  by (auto simp: place_limit_order_def book_wf_def Let_def side_wf_install)

lemma find_level_in_keys: "find_level oid book_side = Some p \<Longrightarrow> p \<in> fst ` set book_side"
  by (induction oid book_side rule: find_level.induct) (auto split: if_splits)

lemma side_wf_cancel_in_side:
  assumes "side_wf prices book_side" and "cancel_in_side oid prices book_side = Some (prices', book_side')"
  shows "side_wf prices' book_side'"
proof -
  from assms(2) obtain p where f: "find_level oid book_side = Some p"
    and r: "remove_price_if_empty prices p
              (AList.update p (remove_oid oid (get_queue book_side p)) book_side) = (prices', book_side')"
    by (auto simp: cancel_in_side_def split: option.splits)
  from find_level_in_keys[OF f] assms(1) have "p \<in> set prices" by (simp add: side_wf_def)
  from side_wf_write_back[OF assms(1) this r] show ?thesis .
qed

lemma book_wf_cancel_order: "book_wf ob \<Longrightarrow> book_wf (fst (cancel_order oid ob))"
  by (auto simp: cancel_order_def book_wf_def split: option.splits dest: side_wf_cancel_in_side)

lemma side_wf_sweep_level:
  assumes "side_wf prices book_side" and "prices \<noteq> []"
    and "sweep_level is_ask prices book_side sz fs = (prices', book_side', sz', fs')"
  shows "side_wf prices' book_side'"
proof -
  let ?p = "best_price is_ask prices"
  obtain q1 sz1 fs1 where d: "drain (fill_tag is_ask) ?p (get_queue book_side ?p) sz fs = (q1, sz1, fs1)"
    by (cases "drain (fill_tag is_ask) ?p (get_queue book_side ?p) sz fs") auto
  from assms(3) d have r: "remove_price_if_empty prices ?p (AList.update ?p q1 book_side) = (prices', book_side')"
    by (auto simp: sweep_level_def Let_def split: prod.splits)
  from side_wf_write_back[OF assms(1) best_price_in[OF assms(2)] r] show ?thesis .
qed

lemma side_wf_sweep:
  "side_wf prices book_side \<Longrightarrow>
   sweep is_ask price prices book_side sz fs = (prices', book_side', sz', fs') \<Longrightarrow>
   side_wf prices' book_side'"
proof (induction is_ask price prices book_side sz fs rule: sweep.induct)
  case (1 is_ask price prices book_side sz fs)
  show ?case
  proof (cases "sz > 0 \<and> prices \<noteq> [] \<and> crosses is_ask price (best_price is_ask prices)")
    case False
    with "1.prems" show ?thesis by (subst (asm) sweep.simps) auto
  next
    case True
    obtain p1 b1 s1 f1 where sl: "sweep_level is_ask prices book_side sz fs = (p1, b1, s1, f1)"
      by (cases "sweep_level is_ask prices book_side sz fs") auto
    from True sl "1.prems"(2) have rec: "sweep is_ask price p1 b1 s1 f1 = (prices', book_side', sz', fs')"
      by (subst (asm) sweep.simps) simp
    from side_wf_sweep_level[OF "1.prems"(1) _ sl] True have "side_wf p1 b1" by simp
    from "1.IH"[OF True sl[symmetric] refl refl this rec] show ?thesis .
  qed
qed

lemma book_wf_process_trade: "book_wf ob \<Longrightarrow> book_wf (fst (process_trade price sz t ob))"
  by (auto simp: process_trade_def book_wf_def Let_def split: prod.splits dest: side_wf_sweep)

lemma book_wf_apply_book_op: "book_wf ob \<Longrightarrow> book_wf (apply_book_op op ob)"
  by (cases op) (simp_all add: book_wf_apply_snapshot book_wf_place_limit_order book_wf_cancel_order
      book_wf_process_trade)

lemma book_wf_run_ops: "book_wf ob \<Longrightarrow> book_wf (run_ops ops ob)"
  unfolding run_ops_def by (induction ops arbitrary: ob) (simp_all add: book_wf_apply_book_op)

lemma side_wf_levels_active: "side_wf prices book_side \<Longrightarrow> levels_active prices book_side"
proof -
  assume w: "side_wf prices book_side"
  have "p \<in> set prices \<and> q \<noteq> []" if "(p, q) \<in> set book_side" for p q
  proof -
    from that w have "map_of book_side p = Some q" by (simp add: side_wf_def)
    then have "get_queue book_side p = q" by (simp add: get_queue_def)
    moreover from that w have "p \<in> set prices" by (force simp: side_wf_def)
    ultimately show ?thesis using w by (auto simp: side_wf_def)
  qed
  with w show ?thesis by (auto simp: levels_active_def side_wf_def)
qed

lemma example_ops_run:
  "bid_prices (run_ops (take 3 example_ops) empty_book) = [98, 99]
   \<and> ask_prices (run_ops (take 3 example_ops) empty_book) = [102]
   \<and> map fst (asks (run_ops (take 3 example_ops) empty_book)) = [102]
   \<and> ask_prices (run_ops (take 4 example_ops) empty_book) = []
   \<and> asks (run_ops (take 4 example_ops) empty_book) = []"
  by code_simp

text \<open>
  C5: after every operation of a sequence of \<open>apply_snapshot\<close>, \<open>place_limit_order\<close>,
  \<open>cancel_order\<close> and \<open>process_trade\<close> calls on a new book (that is, after every
  prefix \<open>take n ops\<close> of the sequence), every price listed in the bid or ask level list
  has a non-empty queue, and every key of the half-book dictionaries is listed and
  holds a non-empty queue.
\<close>

theorem remove_on_empty_invariant:
  "levels_active (bid_prices (run_ops (take n ops) empty_book)) (bids (run_ops (take n ops) empty_book))
   \<and> levels_active (ask_prices (run_ops (take n ops) empty_book)) (asks (run_ops (take n ops) empty_book))"
proof -
  have "book_wf empty_book" by (simp add: book_wf_def empty_book_def)
  then have "book_wf (run_ops (take n ops) empty_book)" by (rule book_wf_run_ops)
  then show ?thesis by (simp add: book_wf_def side_wf_levels_active)
qed

theorem remove_on_empty_invariant_witness:
  "ask_prices (run_ops (take 3 example_ops) empty_book) = [102]
   \<and> map fst (asks (run_ops (take 3 example_ops) empty_book)) = [102]
   \<and> get_queue (asks (run_ops (take 3 example_ops) empty_book)) 102 \<noteq> []
   \<and> bid_prices (run_ops (take 3 example_ops) empty_book) = [98, 99]
   \<and> get_queue (bids (run_ops (take 3 example_ops) empty_book)) 98 \<noteq> []
   \<and> get_queue (bids (run_ops (take 3 example_ops) empty_book)) 99 \<noteq> []
   \<and> ask_prices (run_ops (take 4 example_ops) empty_book) = []
   \<and> asks (run_ops (take 4 example_ops) empty_book) = []"
  using remove_on_empty_invariant[of 3 example_ops] example_ops_run
  by (simp add: levels_active_def)

section \<open>Cancelling an order\<close>

lemma find_level_None_iff:
  "find_level oid book_side = None \<longleftrightarrow> oid \<notin> o_oid ` set (side_orders book_side)"
  by (induction oid book_side rule: find_level.induct) (auto simp: side_orders_def)

lemma remove_oid_split:
  "oid \<in> o_oid ` set q \<Longrightarrow>
     \<exists>a o1 b. q = a @ o1 # b \<and> o_oid o1 = oid \<and> oid \<notin> o_oid ` set a \<and> remove_oid oid q = a @ b"
proof (induction q)
  case Nil
  then show ?case by simp
next
  case (Cons x q)
  show ?case
  proof (cases "o_oid x = oid")
    case True
    then have "x # q = [] @ x # q \<and> o_oid x = oid \<and> oid \<notin> o_oid ` set [] \<and> remove_oid oid (x # q) = [] @ q"
      by simp
    then show ?thesis by blast
  next
    case False
    with Cons.prems have "oid \<in> o_oid ` set q" by auto
    from Cons.IH[OF this] obtain a o1 b where
      h: "q = a @ o1 # b" "o_oid o1 = oid" "oid \<notin> o_oid ` set a" "remove_oid oid q = a @ b" by blast
    with False have "x # q = (x # a) @ o1 # b \<and> o_oid o1 = oid \<and> oid \<notin> o_oid ` set (x # a)
        \<and> remove_oid oid (x # q) = (x # a) @ b" by auto
    then show ?thesis by blast
  qed
qed

lemma find_level_split:
  "find_level oid book_side = Some p \<Longrightarrow>
     \<exists>pre q post. book_side = pre @ (p, q) # post \<and> oid \<notin> o_oid ` set (side_orders pre)
        \<and> oid \<in> o_oid ` set q"
proof (induction oid book_side rule: find_level.induct)
  case (1 oid)
  then show ?case by simp
next
  case (2 oid p' q' rest)
  show ?case
  proof (cases "oid \<in> set (map o_oid q')")
    case True
    with "2.prems" have "p' = p" by simp
    with True have "(p', q') # rest = [] @ (p, q') # rest \<and> oid \<notin> o_oid ` set (side_orders [])
        \<and> oid \<in> o_oid ` set q'" by (simp add: side_orders_def)
    then show ?thesis by blast
  next
    case False
    with "2.prems" have "find_level oid rest = Some p" by simp
    from "2.IH"[OF False this] obtain pre q post where
      h: "rest = pre @ (p, q) # post" "oid \<notin> o_oid ` set (side_orders pre)" "oid \<in> o_oid ` set q"
      by blast
    with False have "(p', q') # rest = ((p', q') # pre) @ (p, q) # post
        \<and> oid \<notin> o_oid ` set (side_orders ((p', q') # pre)) \<and> oid \<in> o_oid ` set q"
      by (auto simp: side_orders_def)
    then show ?thesis by blast
  qed
qed

lemma update_at:
  "p \<notin> fst ` set pre \<Longrightarrow> AList.update p v (pre @ (p, q) # post) = pre @ (p, v) # post"
  by (induction pre) auto

lemma delete_at:
  "p \<notin> fst ` set pre \<Longrightarrow> p \<notin> fst ` set post \<Longrightarrow> AList.delete p (pre @ (p, q) # post) = pre @ post"
  by (induction pre) auto

lemma get_queue_at:
  "p \<notin> fst ` set pre \<Longrightarrow> get_queue (pre @ (p, q) # post) p = q"
  by (induction pre) (auto simp: get_queue_def)

lemma cancel_in_side_found:
  assumes "distinct (map fst book_side)" and "oid \<in> o_oid ` set (side_orders book_side)"
  shows "\<exists>prices' book_side' xs o1 ys.
           cancel_in_side oid prices book_side = Some (prices', book_side')
           \<and> side_orders book_side = xs @ o1 # ys \<and> o_oid o1 = oid \<and> oid \<notin> o_oid ` set xs
           \<and> side_orders book_side' = xs @ ys"
proof -
  from assms(2) obtain p where f: "find_level oid book_side = Some p"
    using find_level_None_iff[of oid book_side] by (cases "find_level oid book_side") auto
  from find_level_split[OF f] obtain pre q post where
    bs: "book_side = pre @ (p, q) # post" and pre: "oid \<notin> o_oid ` set (side_orders pre)"
    and q: "oid \<in> o_oid ` set q" by blast
  from remove_oid_split[OF q] obtain a o1 b where
    qs: "q = a @ o1 # b" and o1: "o_oid o1 = oid" and a: "oid \<notin> o_oid ` set a"
    and rm: "remove_oid oid q = a @ b" by blast
  from assms(1) bs have np: "p \<notin> fst ` set pre" "p \<notin> fst ` set post" by auto
  have gq: "get_queue book_side p = q" unfolding bs using np(1) by (rule get_queue_at)
  have up: "AList.update p (a @ b) book_side = pre @ (p, a @ b) # post"
    unfolding bs using np(1) by (rule update_at)
  let ?xs = "side_orders pre @ a" and ?ys = "b @ side_orders post"
  have so: "side_orders book_side = ?xs @ o1 # ?ys"
    by (simp add: bs qs side_orders_def)
  have nx: "oid \<notin> o_oid ` set ?xs" using pre a by auto
  obtain prices' book_side' where r:
    "remove_price_if_empty prices p (AList.update p (a @ b) book_side) = (prices', book_side')"
    by (cases "remove_price_if_empty prices p (AList.update p (a @ b) book_side)") auto
  have c: "cancel_in_side oid prices book_side = Some (prices', book_side')"
    by (simp add: cancel_in_side_def f gq rm r)
  have "side_orders book_side' = ?xs @ ?ys"
  proof (cases "a @ b = []")
    case True
    with r have "book_side' = AList.delete p (AList.update p (a @ b) book_side)"
      by (auto simp: remove_price_if_empty_def)
    with up have "book_side' = AList.delete p (pre @ (p, a @ b) # post)" by simp
    then have "book_side' = pre @ post" using np by (simp add: delete_at)
    with True show ?thesis by (simp add: side_orders_def)
  next
    case False
    with r have "book_side' = AList.update p (a @ b) book_side"
      by (auto simp: remove_price_if_empty_def)
    with up have "book_side' = pre @ (p, a @ b) # post" by simp
    then show ?thesis by (simp add: side_orders_def)
  qed
  with c so o1 nx show ?thesis by blast
qed

lemma cancel_in_side_not_found:
  "oid \<notin> o_oid ` set (side_orders book_side) \<Longrightarrow> cancel_in_side oid prices book_side = None"
  using find_level_None_iff[of oid book_side] by (simp add: cancel_in_side_def)

lemma example_book_facts:
  "distinct (map fst (bids example_book)) \<and> distinct (map fst (asks example_book))
   \<and> map o_oid (all_orders example_book) = [0, 0, 1]
   \<and> ask_prices example_book = [101, 102]
   \<and> ask_prices (fst (cancel_order 1 example_book)) = [101]
   \<and> map fst (asks (fst (cancel_order 1 example_book))) = [101]
   \<and> map o_oid (all_orders (fst (cancel_order 1 example_book))) = [0, 0]"
  by code_simp

text \<open>
  C9: on a book whose half-book dictionaries have distinct keys (as every Python
  dictionary has), \<open>cancel_order(oid)\<close> returns True when an order with that identifier
  rests in the book, and then exactly one order is removed, the first one bearing the
  identifier in scan order (bids before asks), every other order staying in place; the
  identifier counter and the book time are unchanged, and remove-on-empty holds after
  the call when it held before. When no order bears the identifier the call returns
  False and the book is unchanged. The function has no error result: it cannot raise.
\<close>

theorem cancel_order_removes_one:
  assumes "distinct (map fst (bids ob))" and "distinct (map fst (asks ob))"
  shows "(oid \<in> o_oid ` set (all_orders ob) \<longrightarrow>
            snd (cancel_order oid ob) = True
            \<and> (\<exists>xs o1 ys. all_orders ob = xs @ o1 # ys \<and> o_oid o1 = oid \<and> oid \<notin> o_oid ` set xs
                  \<and> all_orders (fst (cancel_order oid ob)) = xs @ ys)
            \<and> next_oid (fst (cancel_order oid ob)) = next_oid ob
            \<and> time (fst (cancel_order oid ob)) = time ob
            \<and> (book_wf ob \<longrightarrow> book_wf (fst (cancel_order oid ob))))
       \<and> (oid \<notin> o_oid ` set (all_orders ob) \<longrightarrow> cancel_order oid ob = (ob, False))"
proof (intro conjI impI)
  assume "oid \<notin> o_oid ` set (all_orders ob)"
  then have "oid \<notin> o_oid ` set (side_orders (bids ob))" "oid \<notin> o_oid ` set (side_orders (asks ob))"
    by (auto simp: all_orders_def)
  then show "cancel_order oid ob = (ob, False)"
    by (simp add: cancel_order_def cancel_in_side_not_found)
next
  assume "oid \<in> o_oid ` set (all_orders ob)" and "book_wf ob"
  then show "book_wf (fst (cancel_order oid ob))" by (simp add: book_wf_cancel_order)
next
  assume "oid \<in> o_oid ` set (all_orders ob)"
  show "next_oid (fst (cancel_order oid ob)) = next_oid ob"
    by (simp add: cancel_order_def split: option.splits prod.splits)
  show "time (fst (cancel_order oid ob)) = time ob"
    by (simp add: cancel_order_def split: option.splits prod.splits)
next
  assume m: "oid \<in> o_oid ` set (all_orders ob)"
  have "snd (cancel_order oid ob) = True
     \<and> (\<exists>xs o1 ys. all_orders ob = xs @ o1 # ys \<and> o_oid o1 = oid \<and> oid \<notin> o_oid ` set xs
                  \<and> all_orders (fst (cancel_order oid ob)) = xs @ ys)"
  proof (cases "oid \<in> o_oid ` set (side_orders (bids ob))")
    case True
    from cancel_in_side_found[OF assms(1) True, of "bid_prices ob"]
    obtain prices' bids' xs o1 ys where
      c: "cancel_in_side oid (bid_prices ob) (bids ob) = Some (prices', bids')"
      and so: "side_orders (bids ob) = xs @ o1 # ys" and o1: "o_oid o1 = oid"
      and nx: "oid \<notin> o_oid ` set xs" and so': "side_orders bids' = xs @ ys" by blast
    have co: "cancel_order oid ob = (ob\<lparr>bid_prices := prices', bids := bids'\<rparr>, True)"
      by (simp add: cancel_order_def c)
    have "all_orders ob = xs @ o1 # (ys @ side_orders (asks ob))"
      by (simp add: all_orders_def so)
    moreover have "all_orders (fst (cancel_order oid ob)) = xs @ (ys @ side_orders (asks ob))"
      by (simp add: co all_orders_def so')
    ultimately show ?thesis using co o1 nx by (metis snd_conv)
  next
    case False
    with m have ia: "oid \<in> o_oid ` set (side_orders (asks ob))" by (auto simp: all_orders_def)
    from cancel_in_side_found[OF assms(2) ia, of "ask_prices ob"]
    obtain prices' asks' xs o1 ys where
      c: "cancel_in_side oid (ask_prices ob) (asks ob) = Some (prices', asks')"
      and so: "side_orders (asks ob) = xs @ o1 # ys" and o1: "o_oid o1 = oid"
      and nx: "oid \<notin> o_oid ` set xs" and so': "side_orders asks' = xs @ ys" by blast
    have co: "cancel_order oid ob = (ob\<lparr>ask_prices := prices', asks := asks'\<rparr>, True)"
      by (simp add: cancel_order_def c cancel_in_side_not_found[OF False])
    have "all_orders ob = (side_orders (bids ob) @ xs) @ o1 # ys"
      by (simp add: all_orders_def so)
    moreover have "all_orders (fst (cancel_order oid ob)) = (side_orders (bids ob) @ xs) @ ys"
      by (simp add: co all_orders_def so')
    moreover have "oid \<notin> o_oid ` set (side_orders (bids ob) @ xs)" using False nx by auto
    ultimately show ?thesis using co o1 by (metis snd_conv)
  qed
  then show "snd (cancel_order oid ob) = True"
    and "\<exists>xs o1 ys. all_orders ob = xs @ o1 # ys \<and> o_oid o1 = oid \<and> oid \<notin> o_oid ` set xs
                  \<and> all_orders (fst (cancel_order oid ob)) = xs @ ys" by blast+
qed

theorem cancel_order_removes_one_witness:
  "1 \<in> o_oid ` set (all_orders example_book)
   \<and> snd (cancel_order 1 example_book) = True
   \<and> map o_oid (all_orders (fst (cancel_order 1 example_book))) = [0, 0]
   \<and> ask_prices (fst (cancel_order 1 example_book)) = [101]
   \<and> 7 \<notin> o_oid ` set (all_orders example_book)
   \<and> cancel_order 7 example_book = (example_book, False)"
proof -
  have d: "distinct (map fst (bids example_book))" "distinct (map fst (asks example_book))"
    using example_book_facts by simp_all
  have s: "o_oid ` set (all_orders example_book) = {0, 1}"
    using example_book_facts by (metis (no_types) image_set list.simps(15) set_empty2 insert_absorb2)
  from cancel_order_removes_one[OF d, of 1] cancel_order_removes_one[OF d, of 7] s example_book_facts
  show ?thesis by simp
qed

section \<open>Applying a snapshot\<close>

lemma install_levels_map_of:
  "map_of (fst (install_levels sd t levels acc)) p =
     (case map_of (rev (positive_levels levels)) p of
        Some s \<Rightarrow> Some [synthetic_order sd t p s]
      | None \<Rightarrow> map_of (fst acc) p)"
proof (induction sd t levels acc rule: install_levels.induct)
  case (1 sd t acc)
  then show ?case by (simp add: positive_levels_def)
next
  case (2 sd t p' s rest book_side prices)
  show ?case
  proof (cases "s \<le> 0")
    case True
    with 2 show ?thesis by (simp add: positive_levels_def)
  next
    case False
    then show ?thesis using 2(2)[OF False]
      by (auto simp: positive_levels_def update_conv' synthetic_order_def map_add_def
          split: option.splits)
  qed
qed

lemma install_levels_prices:
  "set (snd (install_levels sd t levels acc)) = set (snd acc) \<union> fst ` set (positive_levels levels)"
proof (induction sd t levels acc rule: install_levels.induct)
  case (1 sd t acc)
  then show ?case by (simp add: positive_levels_def)
next
  case (2 sd t p' s rest book_side prices)
  then show ?case by (auto simp: positive_levels_def)
qed

lemma install_levels_distinct_input:
  "distinct (map fst (positive_levels levels)) \<Longrightarrow>
   fst ` set (fst acc) \<inter> fst ` set (positive_levels levels) = {} \<Longrightarrow>
     fst (install_levels sd t levels acc)
       = fst acc @ map (\<lambda>(p, s). (p, [synthetic_order sd t p s])) (positive_levels levels)"
proof (induction sd t levels acc rule: install_levels.induct)
  case (1 sd t acc)
  then show ?case by (simp add: positive_levels_def)
next
  case (2 sd t p' s rest book_side prices)
  show ?case
  proof (cases "s \<le> 0")
    case True
    with 2 show ?thesis by (simp add: positive_levels_def)
  next
    case False
    have nk: "p' \<notin> fst ` set book_side" using False "2.prems"(2) by (auto simp: positive_levels_def)
    then have up: "AList.update p' [synthetic_order sd t p' s] book_side
                 = book_side @ [(p', [synthetic_order sd t p' s])]"
      by (induction book_side) auto
    have d: "distinct (map fst (positive_levels rest))"
      and np: "p' \<notin> fst ` set (positive_levels rest)"
      using False "2.prems"(1) by (auto simp: positive_levels_def)
    have dj: "fst ` set (fst (AList.update p' [\<lparr>o_oid = 0, o_side = sd, o_price = p', o_size = s, o_ts = t\<rparr>] book_side,
                 insert_price prices p')) \<inter> fst ` set (positive_levels rest) = {}"
      using "2.prems"(2) False np by (auto simp: positive_levels_def dom_update)
    from "2.IH"(2)[OF False d dj] False up show ?thesis
      by (simp add: positive_levels_def synthetic_order_def)
  qed
qed

lemma apply_snapshot_fields:
  "bids (apply_snapshot bl al t ob) = fst (install_levels ''bid'' t bl ([], []))"
  "asks (apply_snapshot bl al t ob) = fst (install_levels ''ask'' t al ([], []))"
  "bid_prices (apply_snapshot bl al t ob) = snd (install_levels ''bid'' t bl ([], []))"
  "ask_prices (apply_snapshot bl al t ob) = snd (install_levels ''ask'' t al ([], []))"
  "time (apply_snapshot bl al t ob) = t"
  "next_oid (apply_snapshot bl al t ob) = next_oid ob"
  by (simp_all add: apply_snapshot_def split_beta)

lemma snapshot_example:
  "distinct (map fst (positive_levels [(99, 10), (98, 0), (97, 5)]))
   \<and> distinct (map fst (positive_levels [(101, 10), (102, - 1)]))
   \<and> positive_levels [(99, 10), (98, 0), (97, 5)] = [(99, 10), (97, 5)]
   \<and> positive_levels [(101, 10), (102, - 1)] = [(101, 10)]
   \<and> map o_oid (all_orders example_book) = [0, 0, 1]"
  by code_simp

text \<open>
  C4 (as stated): after \<open>apply_snapshot\<close> the book holds exactly one synthetic order
  per supplied pair with size above 0. This fails when a side lists a price twice: the
  second pair's queue replaces the first (\<open>self.bids[p] = deque([...])\<close>), so two
  positive pairs at price 100 leave one order, of the second pair's size.
\<close>

theorem snapshot_duplicate_price_counterexample:
  "positive_levels [(100, 5), (100, 7)] = [(100, 5), (100, 7)]
   \<and> all_orders (apply_snapshot [(100, 5), (100, 7)] [] 0 empty_book)
       = [synthetic_order ''bid'' 0 100 7]"
  by code_simp

text \<open>
  C4 (amended): after \<open>apply_snapshot(bidLevels, askLevels, ts)\<close> on any prior book,
  each half-book holds, for every price that has a supplied pair with size above 0,
  exactly one queue of exactly one synthetic order (identifier 0, the snapshot's
  timestamp) carrying the size of the last such pair for that price, and nothing else;
  pairs with size at most 0 are dropped. When the positive pairs of a side have
  distinct prices this is exactly one synthetic order per pair, in the supplied order.
  The half-books do not depend on the prior book (no resting order survives), the
  identifier counter is kept, the book time is ts, and \<open>top_of_book()\<close> is the highest
  positive-size bid price and the lowest positive-size ask price (none for a side
  without a positive pair).
\<close>

theorem snapshot_replaces_book:
  "(\<forall>p. map_of (bids (apply_snapshot bl al t ob)) p
          = map_option (\<lambda>s. [synthetic_order ''bid'' t p s]) (map_of (rev (positive_levels bl)) p))
   \<and> (\<forall>p. map_of (asks (apply_snapshot bl al t ob)) p
          = map_option (\<lambda>s. [synthetic_order ''ask'' t p s]) (map_of (rev (positive_levels al)) p))
   \<and> distinct (map fst (bids (apply_snapshot bl al t ob)))
   \<and> distinct (map fst (asks (apply_snapshot bl al t ob)))
   \<and> (distinct (map fst (positive_levels bl)) \<longrightarrow>
        bids (apply_snapshot bl al t ob)
          = map (\<lambda>(p, s). (p, [synthetic_order ''bid'' t p s])) (positive_levels bl))
   \<and> (distinct (map fst (positive_levels al)) \<longrightarrow>
        asks (apply_snapshot bl al t ob)
          = map (\<lambda>(p, s). (p, [synthetic_order ''ask'' t p s])) (positive_levels al))
   \<and> bids (apply_snapshot bl al t ob) = bids (apply_snapshot bl al t empty_book)
   \<and> asks (apply_snapshot bl al t ob) = asks (apply_snapshot bl al t empty_book)
   \<and> top_of_book (apply_snapshot bl al t ob)
        = (if positive_levels bl = [] then None else Some (Max (fst ` set (positive_levels bl))),
           if positive_levels al = [] then None else Some (Min (fst ` set (positive_levels al))))
   \<and> time (apply_snapshot bl al t ob) = t
   \<and> next_oid (apply_snapshot bl al t ob) = next_oid ob"
proof -
  let ?ob = "apply_snapshot bl al t ob"
  have m: "map_of (fst (install_levels sd t levels ([], []))) p
          = map_option (\<lambda>s. [synthetic_order sd t p s]) (map_of (rev (positive_levels levels)) p)"
    for sd levels p
    using install_levels_map_of[of sd t levels "([], [])" p] by (simp split: option.splits)
  have w: "book_wf ?ob" by (rule book_wf_apply_snapshot)
  have d: "distinct (map fst (bids ?ob))" "distinct (map fst (asks ?ob))"
    using w by (simp_all add: book_wf_def side_wf_def)
  have o: "distinct (map fst (positive_levels levels)) \<longrightarrow>
        fst (install_levels sd t levels ([], []))
          = map (\<lambda>(p, s). (p, [synthetic_order sd t p s])) (positive_levels levels)" for sd levels
    using install_levels_distinct_input[of levels "([], [])" sd t] by simp
  have ps: "set (snd (install_levels sd t levels ([], []))) = fst ` set (positive_levels levels)"
    for sd levels
    using install_levels_prices[of sd t levels "([], [])"] by simp
  have ne: "snd (install_levels sd t levels ([], [])) = [] \<longleftrightarrow> positive_levels levels = []"
    for sd levels
    using ps[of sd levels] by (metis image_is_empty set_empty)
  have tb: "top_of_book ?ob
        = (if positive_levels bl = [] then None else Some (Max (fst ` set (positive_levels bl))),
           if positive_levels al = [] then None else Some (Min (fst ` set (positive_levels al))))"
    by (simp add: top_of_book_def apply_snapshot_fields ne ps)
  show ?thesis
    using m d o tb by (simp add: apply_snapshot_fields)
qed

theorem snapshot_replaces_book_witness:
  "map o_oid (all_orders example_book) = [0, 0, 1]
   \<and> bids (apply_snapshot [(99, 10), (98, 0), (97, 5)] [(101, 10), (102, - 1)] 3 example_book)
       = [(99, [synthetic_order ''bid'' 3 99 10]), (97, [synthetic_order ''bid'' 3 97 5])]
   \<and> asks (apply_snapshot [(99, 10), (98, 0), (97, 5)] [(101, 10), (102, - 1)] 3 example_book)
       = [(101, [synthetic_order ''ask'' 3 101 10])]
   \<and> top_of_book (apply_snapshot [(99, 10), (98, 0), (97, 5)] [(101, 10), (102, - 1)] 3 example_book)
       = (Some 99, Some 101)"
  using snapshot_replaces_book[of "[(99, 10), (98, 0), (97, 5)]" "[(101, 10), (102, - 1)]" 3 example_book]
    snapshot_example
  by simp

section \<open>Sweeps\<close>

lemma fills_total_append [simp]: "fills_total (fs @ gs) = fills_total fs + fills_total gs"
  by (simp add: fills_total_def)

lemma drain_stop: "sz \<le> 0 \<or> q = [] \<Longrightarrow> drain tag p q sz fs = (q, sz, fs)"
  by (subst drain.simps) auto

lemma drain_step:
  assumes "sz > 0"
  shows "drain tag p (o1 # qt) sz fs =
     (if o_size o1 \<le> sz then drain tag p qt (sz - o_size o1) (fs @ [(tag, p, o_size o1)])
      else (o1\<lparr>o_size := o_size o1 - sz\<rparr> # qt, 0, fs @ [(tag, p, sz)]))"
proof (cases "o_size o1 \<le> sz")
  case True
  then have m: "min (o_size o1) sz = o_size o1" by simp
  show ?thesis using assms True by (subst drain.simps) (simp add: Let_def m)
next
  case False
  then have m: "min (o_size o1) sz = sz" by simp
  have "drain tag p (o1 # qt) sz fs
      = drain tag p (o1\<lparr>o_size := o_size o1 - sz\<rparr> # qt) 0 (fs @ [(tag, p, sz)])"
    using assms False by (subst drain.simps) (simp add: Let_def m)
  also have "\<dots> = (o1\<lparr>o_size := o_size o1 - sz\<rparr> # qt, 0, fs @ [(tag, p, sz)])"
    by (rule drain_stop) simp
  finally show ?thesis using False by simp
qed

lemma drain_conserve:
  "drain tag p q sz fs = (q', sz', fs') \<Longrightarrow>
     fills_total fs' = fills_total fs + (sz - sz') \<and> queue_size q' = queue_size q - (sz - sz')"
proof (induction q arbitrary: sz fs)
  case Nil
  then show ?case by (simp add: drain_stop)
next
  case (Cons o1 qt)
  show ?case
  proof (cases "sz > 0")
    case False
    with Cons.prems show ?thesis by (simp add: drain_stop)
  next
    case True
    show ?thesis
    proof (cases "o_size o1 \<le> sz")
      case le: True
      with Cons.prems True have "drain tag p qt (sz - o_size o1) (fs @ [(tag, p, o_size o1)]) = (q', sz', fs')"
        by (simp add: drain_step)
      from Cons.IH[OF this] show ?thesis
        by (simp add: fills_total_def fill_qty_def queue_size_def)
    next
      case False
      with Cons.prems True show ?thesis
        by (auto simp: drain_step fills_total_def fill_qty_def queue_size_def)
    qed
  qed
qed

lemma drain_nonneg:
  assumes "drain tag p q sz fs = (q', sz', fs')" and "0 \<le> sz"
  shows "0 \<le> sz'"
  using assms
proof (induction q arbitrary: sz fs)
  case Nil
  then show ?case by (simp add: drain_stop)
next
  case (Cons o1 qt)
  show ?case
  proof (cases "sz > 0")
    case False
    with Cons.prems show ?thesis by (simp add: drain_stop)
  next
    case True
    show ?thesis
    proof (cases "o_size o1 \<le> sz")
      case le: True
      with Cons.prems True have "drain tag p qt (sz - o_size o1) (fs @ [(tag, p, o_size o1)]) = (q', sz', fs')"
        by (simp add: drain_step)
      from Cons.IH[OF this] le show ?thesis by simp
    next
      case False
      with Cons.prems True show ?thesis by (auto simp: drain_step)
    qed
  qed
qed

lemma drain_queue_nonneg:
  assumes "drain tag p q sz fs = (q', sz', fs')" and "\<forall>o1 \<in> set q. 0 \<le> o_size o1"
  shows "\<forall>o1 \<in> set q'. 0 \<le> o_size o1"
  using assms
proof (induction q arbitrary: sz fs)
  case Nil
  then show ?case by (simp add: drain_stop)
next
  case (Cons o1 qt)
  show ?case
  proof (cases "sz > 0")
    case False
    with Cons.prems show ?thesis by (simp add: drain_stop)
  next
    case True
    show ?thesis
    proof (cases "o_size o1 \<le> sz")
      case le: True
      with Cons.prems True have "drain tag p qt (sz - o_size o1) (fs @ [(tag, p, o_size o1)]) = (q', sz', fs')"
        by (simp add: drain_step)
      from Cons.IH[OF this] Cons.prems(2) show ?thesis by simp
    next
      case False
      with Cons.prems True show ?thesis by (auto simp: drain_step)
    qed
  qed
qed

lemma sizes_nonneg_queues: "sizes_nonneg book_side \<Longrightarrow> queues_nonneg book_side"
proof -
  assume a: "sizes_nonneg book_side"
  have "0 \<le> o_size o1" if "o1 \<in> set (get_queue book_side p)" for p o1
  proof (cases "map_of book_side p")
    case None
    with that show ?thesis by (simp add: get_queue_def)
  next
    case (Some q)
    then have "(p, q) \<in> set book_side" by (rule map_of_SomeD)
    with a have "\<forall>o1 \<in> set q. 0 \<le> o_size o1" by (auto simp: sizes_nonneg_def list_all_iff)
    with that Some show ?thesis by (simp add: get_queue_def)
  qed
  then show ?thesis by (simp add: queues_nonneg_def)
qed

lemma resting_sum:
  "resting P prices book_side = (\<Sum>p \<in> {p \<in> set prices. P p}. level_size book_side p)"
proof -
  have "distinct (filter P (remdups prices))" by simp
  then have "sum_list (map (level_size book_side) (filter P (remdups prices)))
      = sum (level_size book_side) (set (filter P (remdups prices)))"
    by (rule sum_list_distinct_conv_sum_set)
  moreover have "set (filter P (remdups prices)) = {p \<in> set prices. P p}" by auto
  ultimately show ?thesis by (simp add: resting_def)
qed

lemma sum_change_one:
  fixes f g :: "rat \<Rightarrow> int"
  assumes "finite S" and "p \<in> S" and "S' \<subseteq> S" and "S - {p} \<subseteq> S'"
    and "\<And>x. x \<noteq> p \<Longrightarrow> g x = f x" and "p \<in> S' \<Longrightarrow> g p = v" and "p \<notin> S' \<Longrightarrow> v = 0"
  shows "sum g S' = sum f S - f p + v"
proof -
  have fs: "finite S'" using assms(1,3) by (rule rev_finite_subset)
  have eq: "S' - {p} = S - {p}" using assms(3,4) by auto
  have "sum g (S' - {p}) = sum f (S - {p})"
    unfolding eq using assms(5) by (intro sum.cong) auto
  moreover have "sum f S = sum f (S - {p}) + f p"
    using assms(1,2) by (simp add: sum.remove)
  moreover have "sum g S' = sum g (S' - {p}) + v"
  proof (cases "p \<in> S'")
    case True
    with fs assms(6) show ?thesis by (simp add: sum.remove)
  next
    case False
    with assms(7) show ?thesis by simp
  qed
  ultimately show ?thesis by simp
qed

lemma sweep_level_resting:
  assumes sl: "sweep_level is_ask prices book_side sz fs = (prices', book_side', sz', fs')"
    and ne: "prices \<noteq> []" and P: "P (best_price is_ask prices)"
  shows "resting P prices' book_side' = resting P prices book_side - (sz - sz')"
    and "fills_total fs' = fills_total fs + (sz - sz')"
proof -
  let ?p = "best_price is_ask prices"
  obtain q1 sz1 fs1 where d: "drain (fill_tag is_ask) ?p (get_queue book_side ?p) sz fs = (q1, sz1, fs1)"
    by (cases "drain (fill_tag is_ask) ?p (get_queue book_side ?p) sz fs") auto
  from drain_conserve[OF d] have ft: "fills_total fs1 = fills_total fs + (sz - sz1)"
    and qs: "queue_size q1 = level_size book_side ?p - (sz - sz1)" by (simp_all add: level_size_def)
  have pin: "?p \<in> set prices" using ne by (rule best_price_in)
  let ?S = "{x \<in> set prices. P x}" and ?S' = "{x \<in> set prices'. P x}"
  have r: "prices' = (if q1 = [] then remove1 ?p prices else prices)"
          "book_side' = (if q1 = [] then AList.delete ?p book_side else AList.update ?p q1 book_side)"
          "sz' = sz1" "fs' = fs1"
    using sl unfolding sweep_level_eq[OF d] by (auto split: if_splits)
  show "fills_total fs' = fills_total fs + (sz - sz')" using ft r by simp
  have g: "\<And>x. x \<noteq> ?p \<Longrightarrow> level_size book_side' x = level_size book_side x"
    using r by (simp add: level_size_def)
  have gp: "level_size book_side' ?p = queue_size q1"
    using r by (simp add: level_size_def queue_size_def)
  have sub: "?S' \<subseteq> ?S" using r set_remove1_subset[of ?p prices] by (auto split: if_splits)
  have sup: "?S - {?p} \<subseteq> ?S'" using r by auto
  have nin: "?p \<notin> ?S' \<Longrightarrow> queue_size q1 = 0"
  proof -
    assume "?p \<notin> ?S'"
    with P have "?p \<notin> set prices'" by simp
    with pin r have "q1 = []" by (auto split: if_splits)
    then show ?thesis by (simp add: queue_size_def)
  qed
  have "sum (level_size book_side') ?S' = sum (level_size book_side) ?S - level_size book_side ?p + queue_size q1"
    by (rule sum_change_one[OF _ _ sub sup g]) (use pin P gp nin in auto)
  then show "resting P prices' book_side' = resting P prices book_side - (sz - sz')"
    using qs r by (simp add: resting_sum)
qed

lemma sweep_stop:
  "\<not> (sz > 0 \<and> prices \<noteq> [] \<and> crosses is_ask price (best_price is_ask prices)) \<Longrightarrow>
     sweep is_ask price prices book_side sz fs = (prices, book_side, sz, fs)"
  by (subst sweep.simps) auto

lemma sweep_step:
  "sz > 0 \<Longrightarrow> prices \<noteq> [] \<Longrightarrow> crosses is_ask price (best_price is_ask prices) \<Longrightarrow>
   sweep_level is_ask prices book_side sz fs = (p1, b1, s1, f1) \<Longrightarrow>
     sweep is_ask price prices book_side sz fs = sweep is_ask price p1 b1 s1 f1"
  by (subst sweep.simps) simp

lemma sweep_conserve:
  assumes "sweep is_ask price prices book_side sz fs = (prices', book_side', sz', fs')"
    and "\<forall>x. crosses is_ask price x \<longrightarrow> P x"
  shows "resting P prices' book_side' = resting P prices book_side - (sz - sz')
       \<and> fills_total fs' = fills_total fs + (sz - sz')"
  using assms
proof (induction is_ask price prices book_side sz fs rule: sweep.induct)
  case (1 is_ask price prices book_side sz fs)
  show ?case
  proof (cases "sz > 0 \<and> prices \<noteq> [] \<and> crosses is_ask price (best_price is_ask prices)")
    case False
    from "1.prems"(1) show ?thesis unfolding sweep_stop[OF False] by simp
  next
    case True
    obtain p1 b1 s1 f1 where sl: "sweep_level is_ask prices book_side sz fs = (p1, b1, s1, f1)"
      by (cases "sweep_level is_ask prices book_side sz fs") auto
    from True sl "1.prems"(1) have rec: "sweep is_ask price p1 b1 s1 f1 = (prices', book_side', sz', fs')"
      by (simp add: sweep_step)
    have Pb: "P (best_price is_ask prices)" using True "1.prems"(2) by simp
    have ne: "prices \<noteq> []" using True by simp
    from sweep_level_resting[where P = P, OF sl ne Pb]
    have a: "resting P p1 b1 = resting P prices book_side - (sz - s1)"
      and b: "fills_total f1 = fills_total fs + (sz - s1)" by simp_all
    from "1.IH"[OF True sl[symmetric] refl refl rec "1.prems"(2)]
    have "resting P prices' book_side' = resting P p1 b1 - (s1 - sz')
       \<and> fills_total fs' = fills_total f1 + (s1 - sz')" .
    with a b show ?thesis by simp
  qed
qed

lemma queues_nonneg_sweep_level:
  assumes "sweep_level is_ask prices book_side sz fs = (prices', book_side', sz', fs')"
    and "queues_nonneg book_side" and "0 \<le> sz"
  shows "queues_nonneg book_side' \<and> 0 \<le> sz'"
proof -
  let ?p = "best_price is_ask prices"
  obtain q1 sz1 fs1 where d: "drain (fill_tag is_ask) ?p (get_queue book_side ?p) sz fs = (q1, sz1, fs1)"
    by (cases "drain (fill_tag is_ask) ?p (get_queue book_side ?p) sz fs") auto
  have r: "book_side' = (if q1 = [] then AList.delete ?p book_side else AList.update ?p q1 book_side)"
          "sz' = sz1"
    using assms(1) unfolding sweep_level_eq[OF d] by (auto split: if_splits)
  from drain_queue_nonneg[OF d] assms(2) have "\<forall>o1 \<in> set q1. 0 \<le> o_size o1"
    by (simp add: queues_nonneg_def)
  with assms(2) r have "queues_nonneg book_side'" by (auto simp: queues_nonneg_def)
  moreover from drain_nonneg[OF d assms(3)] r have "0 \<le> sz'" by simp
  ultimately show ?thesis by simp
qed

lemma sweep_final:
  assumes "sweep is_ask price prices book_side sz fs = (prices', book_side', sz', fs')"
    and "queues_nonneg book_side" and "0 \<le> sz"
  shows "queues_nonneg book_side' \<and> 0 \<le> sz'
       \<and> (sz' = 0 \<or> prices' = [] \<or> \<not> crosses is_ask price (best_price is_ask prices'))"
  using assms
proof (induction is_ask price prices book_side sz fs rule: sweep.induct)
  case (1 is_ask price prices book_side sz fs)
  show ?case
  proof (cases "sz > 0 \<and> prices \<noteq> [] \<and> crosses is_ask price (best_price is_ask prices)")
    case False
    from "1.prems" False show ?thesis unfolding sweep_stop[OF False] by auto
  next
    case True
    obtain p1 b1 s1 f1 where sl: "sweep_level is_ask prices book_side sz fs = (p1, b1, s1, f1)"
      by (cases "sweep_level is_ask prices book_side sz fs") auto
    from True sl "1.prems"(1) have rec: "sweep is_ask price p1 b1 s1 f1 = (prices', book_side', sz', fs')"
      by (simp add: sweep_step)
    from queues_nonneg_sweep_level[OF sl "1.prems"(2,3)] have n: "queues_nonneg b1" "0 \<le> s1"
      by simp_all
    from "1.IH"[OF True sl[symmetric] refl refl rec n] show ?thesis .
  qed
qed

lemma resting_nonneg: "queues_nonneg book_side \<Longrightarrow> 0 \<le> resting P prices book_side"
proof -
  assume q: "queues_nonneg book_side"
  have "0 \<le> level_size book_side p" for p
    unfolding level_size_def queue_size_def
    using q by (intro sum_list_nonneg) (auto simp: queues_nonneg_def)
  then show ?thesis unfolding resting_def by (intro sum_list_nonneg) auto
qed

lemma no_cross_available:
  assumes "prices = [] \<or> \<not> crosses is_ask price (best_price is_ask prices)"
  shows "available is_ask price prices book_side = 0"
proof -
  have "\<not> crosses is_ask price x" if "x \<in> set prices" for x
  proof
    assume c: "crosses is_ask price x"
    from that have ne: "prices \<noteq> []" by auto
    have "crosses is_ask price (best_price is_ask prices)"
    proof (cases is_ask)
      case True
      have "Min (set prices) \<le> x" using that by simp
      with c True show ?thesis by (simp add: crosses_def best_price_def)
    next
      case False
      have "x \<le> Max (set prices)" using that by simp
      with c False show ?thesis by (simp add: crosses_def best_price_def)
    qed
    with assms ne show False by simp
  qed
  then have "filter (crosses is_ask price) (remdups prices) = []" by (simp add: filter_empty_conv)
  then show ?thesis by (simp add: available_def resting_def)
qed

lemma sweep_consumes_min:
  assumes sw: "sweep is_ask price prices book_side sz fs = (prices', book_side', sz', fs')"
    and qn: "queues_nonneg book_side" and sz: "0 \<le> sz"
  shows "sz - sz' = min sz (available is_ask price prices book_side)"
proof -
  from sweep_conserve[OF sw, of "crosses is_ask price"]
  have a: "available is_ask price prices' book_side' = available is_ask price prices book_side - (sz - sz')"
    by (simp add: available_def)
  from sweep_final[OF sw qn sz] have n: "queues_nonneg book_side'" "0 \<le> sz'"
    and f: "sz' = 0 \<or> prices' = [] \<or> \<not> crosses is_ask price (best_price is_ask prices')" by simp_all
  have ge: "0 \<le> available is_ask price prices' book_side'"
    using n(1) by (simp add: available_def resting_nonneg)
  show ?thesis
  proof (cases "sz' = 0")
    case True
    with a ge show ?thesis by simp
  next
    case False
    with f have "available is_ask price prices' book_side' = 0" by (intro no_cross_available) simp
    with a n(2) show ?thesis by simp
  qed
qed

lemma hits_time [simp]:
  "hits_asks (ob\<lparr>time := t\<rparr>) price = hits_asks ob price"
  "hits_bids (ob\<lparr>time := t\<rparr>) price = hits_bids ob price"
  by (simp_all add: hits_asks_def hits_bids_def)

lemma process_trade_asks:
  assumes "hits_asks ob price"
    and "sweep True price (ask_prices ob) (asks ob) sz [] = (prices', asks', sz', fs)"
  shows "process_trade price sz t ob = (ob\<lparr>time := t, ask_prices := prices', asks := asks'\<rparr>, fs)"
  using assms by (simp add: process_trade_def Let_def)

lemma process_trade_bids:
  assumes "\<not> hits_asks ob price" and "hits_bids ob price"
    and "sweep False price (bid_prices ob) (bids ob) sz [] = (prices', bids', sz', fs)"
  shows "process_trade price sz t ob = (ob\<lparr>time := t, bid_prices := prices', bids := bids'\<rparr>, fs)"
  using assms by (simp add: process_trade_def Let_def)

lemma process_trade_none:
  assumes "\<not> hits_asks ob price" and "\<not> hits_bids ob price"
  shows "process_trade price sz t ob = (ob\<lparr>time := t\<rparr>, [])"
  using assms by (simp add: process_trade_def Let_def)

lemma deep_book_facts:
  "sizes_nonneg (bids deep_book) \<and> sizes_nonneg (asks deep_book)
   \<and> hits_asks deep_book 102
   \<and> available True 102 (ask_prices deep_book) (asks deep_book) = 15
   \<and> liquidity (ask_prices deep_book) (asks deep_book) = 22
   \<and> snd (process_trade 102 20 1 deep_book) = [(''sell'', 101, 10), (''sell'', 102, 5)]
   \<and> \<not> hits_asks deep_book 98
   \<and> available False 98 (bid_prices deep_book) (bids deep_book) = 14
   \<and> snd (process_trade 98 12 2 deep_book) = [(''buy'', 99, 10), (''buy'', 98, 2)]"
  by code_simp

text \<open>
  C1 (as stated): on any book state the fills of \<open>process_trade(price, size, ts)\<close> sum
  to min(size, A) and the side loses that much. This fails on inputs the code accepts
  without a check. With a negative trade size the loop is not entered: a trade of -5 at
  102 on a book with 15 available returns no fills, total 0, while min(size, A) is -5.
  With a resting order of a negative size A undercounts what the head of the queue
  gives: asks of sizes 3 and -2 placed at 100 make A = 1, and a trade of 2 at 100 takes
  2 from the first order, so the fills sum to 2 and the side falls from 1 to -1.
\<close>

theorem process_trade_unbounded_sizes_counterexample:
  "hits_asks deep_book 102
   \<and> fills_total (snd (process_trade 102 (- 5) 1 deep_book)) = 0
   \<and> min (- 5) (available True 102 (ask_prices deep_book) (asks deep_book)) = - 5
   \<and> hits_asks oversold_book 100
   \<and> available True 100 (ask_prices oversold_book) (asks oversold_book) = 1
   \<and> snd (process_trade 100 2 3 oversold_book) = [(''sell'', 100, 2)]
   \<and> fills_total (snd (process_trade 100 2 3 oversold_book)) = 2
   \<and> min 2 (available True 100 (ask_prices oversold_book) (asks oversold_book)) = 1
   \<and> liquidity (ask_prices oversold_book) (asks oversold_book) = 1
   \<and> liquidity (ask_prices (fst (process_trade 100 2 3 oversold_book)))
                (asks (fst (process_trade 100 2 3 oversold_book))) = - 1"
  by code_simp

text \<open>
  C1 (amended): for every call \<open>process_trade(price, size, ts)\<close> with size at least 0 on a book
  whose resting orders have sizes at least 0, with A the aggregate remaining size of
  the listed levels of the swept side whose prices satisfy the direction condition
  against the price (asks when \<open>price >= best ask\<close>, bids otherwise; A is 0 when no bid
  level satisfies it either), the quantities of the returned fills sum to min(size, A),
  the aggregate size of the swept side falls by exactly that amount, and the other side
  is untouched. The excess is dropped: \<open>process_trade\<close> returns the fills only and has
  no error result.
\<close>

theorem process_trade_consumes_min:
  assumes "0 \<le> sz" and "sizes_nonneg (bids ob)" and "sizes_nonneg (asks ob)"
  shows "(hits_asks ob price \<longrightarrow>
            fills_total (snd (process_trade price sz t ob))
              = min sz (available True price (ask_prices ob) (asks ob))
            \<and> liquidity (ask_prices (fst (process_trade price sz t ob)))
                         (asks (fst (process_trade price sz t ob)))
              = liquidity (ask_prices ob) (asks ob)
                  - min sz (available True price (ask_prices ob) (asks ob))
            \<and> bids (fst (process_trade price sz t ob)) = bids ob
            \<and> bid_prices (fst (process_trade price sz t ob)) = bid_prices ob)
       \<and> (\<not> hits_asks ob price \<longrightarrow>
            fills_total (snd (process_trade price sz t ob))
              = min sz (available False price (bid_prices ob) (bids ob))
            \<and> liquidity (bid_prices (fst (process_trade price sz t ob)))
                         (bids (fst (process_trade price sz t ob)))
              = liquidity (bid_prices ob) (bids ob)
                  - min sz (available False price (bid_prices ob) (bids ob))
            \<and> asks (fst (process_trade price sz t ob)) = asks ob
            \<and> ask_prices (fst (process_trade price sz t ob)) = ask_prices ob)"
proof (intro conjI impI)
  assume h: "hits_asks ob price"
  obtain prices' asks' sz' fs where
    sw: "sweep True price (ask_prices ob) (asks ob) sz [] = (prices', asks', sz', fs)"
    by (cases "sweep True price (ask_prices ob) (asks ob) sz []") auto
  note pt = process_trade_asks[OF h sw, of t]
  from sweep_consumes_min[OF sw sizes_nonneg_queues[OF assms(3)] assms(1)]
  have c: "sz - sz' = min sz (available True price (ask_prices ob) (asks ob))" .
  from sweep_conserve[OF sw, of "\<lambda>p. True"]
  have "liquidity prices' asks' = liquidity (ask_prices ob) (asks ob) - (sz - sz')"
    and "fills_total fs = sz - sz'" by (simp_all add: liquidity_def fills_total_def)
  with c pt
  show "fills_total (snd (process_trade price sz t ob))
              = min sz (available True price (ask_prices ob) (asks ob))"
    and "liquidity (ask_prices (fst (process_trade price sz t ob)))
                         (asks (fst (process_trade price sz t ob)))
              = liquidity (ask_prices ob) (asks ob)
                  - min sz (available True price (ask_prices ob) (asks ob))"
    and "bids (fst (process_trade price sz t ob)) = bids ob"
    and "bid_prices (fst (process_trade price sz t ob)) = bid_prices ob"
    by simp_all
next
  assume h: "\<not> hits_asks ob price"
  have "fills_total (snd (process_trade price sz t ob))
              = min sz (available False price (bid_prices ob) (bids ob))
       \<and> liquidity (bid_prices (fst (process_trade price sz t ob)))
                         (bids (fst (process_trade price sz t ob)))
              = liquidity (bid_prices ob) (bids ob)
                  - min sz (available False price (bid_prices ob) (bids ob))
       \<and> asks (fst (process_trade price sz t ob)) = asks ob
       \<and> ask_prices (fst (process_trade price sz t ob)) = ask_prices ob"
  proof (cases "hits_bids ob price")
    case True
    obtain prices' bids' sz' fs where
      sw: "sweep False price (bid_prices ob) (bids ob) sz [] = (prices', bids', sz', fs)"
      by (cases "sweep False price (bid_prices ob) (bids ob) sz []") auto
    note pt = process_trade_bids[OF h True sw, of t]
    from sweep_consumes_min[OF sw sizes_nonneg_queues[OF assms(2)] assms(1)]
    have c: "sz - sz' = min sz (available False price (bid_prices ob) (bids ob))" .
    from sweep_conserve[OF sw, of "\<lambda>p. True"]
    have "liquidity prices' bids' = liquidity (bid_prices ob) (bids ob) - (sz - sz')"
      and "fills_total fs = sz - sz'" by (simp_all add: liquidity_def fills_total_def)
    with c pt show ?thesis by simp
  next
    case False
    then have "bid_prices ob = [] \<or> \<not> crosses False price (best_price False (bid_prices ob))"
      by (auto simp: hits_bids_def crosses_def best_price_def)
    then have "available False price (bid_prices ob) (bids ob) = 0" by (rule no_cross_available)
    with assms(1) process_trade_none[OF h False, of sz t] show ?thesis
      by (simp add: fills_total_def)
  qed
  then show "fills_total (snd (process_trade price sz t ob))
              = min sz (available False price (bid_prices ob) (bids ob))"
    and "liquidity (bid_prices (fst (process_trade price sz t ob)))
                         (bids (fst (process_trade price sz t ob)))
              = liquidity (bid_prices ob) (bids ob)
                  - min sz (available False price (bid_prices ob) (bids ob))"
    and "asks (fst (process_trade price sz t ob)) = asks ob"
    and "ask_prices (fst (process_trade price sz t ob)) = ask_prices ob"
    by simp_all
qed

theorem process_trade_consumes_min_witness:
  "fills_total (snd (process_trade 102 20 1 deep_book)) = 15
   \<and> liquidity (ask_prices (fst (process_trade 102 20 1 deep_book)))
                (asks (fst (process_trade 102 20 1 deep_book))) = 7
   \<and> snd (process_trade 102 20 1 deep_book) = [(''sell'', 101, 10), (''sell'', 102, 5)]
   \<and> fills_total (snd (process_trade 98 12 2 deep_book)) = 12
   \<and> snd (process_trade 98 12 2 deep_book) = [(''buy'', 99, 10), (''buy'', 98, 2)]"
proof -
  have n: "sizes_nonneg (bids deep_book)" "sizes_nonneg (asks deep_book)"
    using deep_book_facts by simp_all
  have z: "(0::int) \<le> 20" "(0::int) \<le> 12" by simp_all
  from process_trade_consumes_min[OF z(1) n, of 102 1]
       process_trade_consumes_min[OF z(2) n, of 98 2] deep_book_facts
  show ?thesis by simp
qed

section \<open>Price-time priority of a sweep\<close>

lemma fifo_drained_Nil [simp]: "fifo_drained q q' [] \<longleftrightarrow> q' = q"
  by (auto simp: fifo_drained_def)

lemma fifo_drained_empty: "fifo_drained [] q' ts \<Longrightarrow> ts = [] \<and> q' = []"
  by (auto simp: fifo_drained_def)

lemma fifo_drained_Cons:
  assumes "fifo_drained qt q' ts"
  shows "fifo_drained (o1 # qt) q' (o_size o1 # ts)"
proof -
  let ?n = "length ts"
  from assms have len: "?n \<le> length qt" by (simp add: fifo_drained_def)
  from assms consider
    (full) "ts = map o_size (take ?n qt)" "q' = drop ?n qt"
    | (part) "ts \<noteq> []" "butlast ts = map o_size (take (?n - 1) qt)"
        "q' = (qt ! (?n - 1))\<lparr>o_size := o_size (qt ! (?n - 1)) - last ts\<rparr> # drop ?n qt"
    by (auto simp: fifo_drained_def)
  then show ?thesis
  proof cases
    case full
    then show ?thesis using len by (simp add: fifo_drained_def)
  next
    case part
    then obtain m where n: "?n = Suc m" by (cases ts) auto
    have "butlast (o_size o1 # ts) = map o_size (take ?n (o1 # qt))"
      using part(1,2) n by simp
    moreover have "(o1 # qt) ! ?n = qt ! (?n - 1)" using n by simp
    ultimately show ?thesis using part len n by (simp add: fifo_drained_def)
  qed
qed

lemma fifo_drained_partial:
  "fifo_drained (o1 # qt) (o1\<lparr>o_size := o_size o1 - s\<rparr> # qt) [s]"
  by (simp add: fifo_drained_def)

lemma drain_fifo:
  "drain tag p q sz fs = (q', sz', fs') \<Longrightarrow>
     \<exists>new. fs' = fs @ new \<and> (\<forall>f \<in> set new. fill_side f = tag \<and> fill_price f = p)
        \<and> fifo_drained q q' (map fill_qty new)"
proof (induction q arbitrary: sz fs)
  case Nil
  then show ?case by (simp add: drain_stop)
next
  case (Cons o1 qt)
  show ?case
  proof (cases "sz > 0")
    case False
    with Cons.prems show ?thesis by (simp add: drain_stop)
  next
    case True
    show ?thesis
    proof (cases "o_size o1 \<le> sz")
      case le: True
      with Cons.prems True have "drain tag p qt (sz - o_size o1) (fs @ [(tag, p, o_size o1)]) = (q', sz', fs')"
        by (simp add: drain_step)
      from Cons.IH[OF this] obtain new where
        n: "fs' = (fs @ [(tag, p, o_size o1)]) @ new"
           "\<forall>f \<in> set new. fill_side f = tag \<and> fill_price f = p"
           "fifo_drained qt q' (map fill_qty new)" by blast
      let ?new = "(tag, p, o_size o1) # new"
      have "fs' = fs @ ?new" using n(1) by simp
      moreover have "\<forall>f \<in> set ?new. fill_side f = tag \<and> fill_price f = p"
        using n(2) by (simp add: fill_side_def fill_price_def)
      moreover have "fifo_drained (o1 # qt) q' (map fill_qty ?new)"
        using fifo_drained_Cons[OF n(3), of o1] by (simp add: fill_qty_def)
      ultimately show ?thesis by blast
    next
      case False
      with Cons.prems True have r: "q' = o1\<lparr>o_size := o_size o1 - sz\<rparr> # qt" "fs' = fs @ [(tag, p, sz)]"
        by (auto simp: drain_step)
      have "\<forall>f \<in> set [(tag, p, sz)]. fill_side f = tag \<and> fill_price f = p"
        by (simp add: fill_side_def fill_price_def)
      moreover have "fifo_drained (o1 # qt) q' (map fill_qty [(tag, p, sz)])"
        unfolding r by (simp add: fill_qty_def fifo_drained_partial)
      ultimately show ?thesis using r(2) by blast
    qed
  qed
qed

lemma sorted_wrt_all_equal:
  "\<forall>x \<in> set xs. x = p \<Longrightarrow> R p p \<Longrightarrow> sorted_wrt R xs"
  by (induction xs) auto

lemma best_price_no_worse:
  "x \<in> set prices \<Longrightarrow> no_worse is_ask (best_price is_ask prices) x"
  by (simp add: no_worse_def best_price_def)

lemma sweep_fifo:
  "sweep is_ask price prices book_side sz fs = (prices', book_side', sz', fs') \<Longrightarrow>
     \<exists>new. fs' = fs @ new
       \<and> (\<forall>f \<in> set new. fill_side f = fill_tag is_ask \<and> fill_price f \<in> set prices
                          \<and> crosses is_ask price (fill_price f))
       \<and> sorted_wrt (no_worse is_ask) (map fill_price new)
       \<and> (\<forall>x. fifo_drained (get_queue book_side x) (get_queue book_side' x)
                 (map fill_qty (fills_at x new)))"
proof (induction is_ask price prices book_side sz fs rule: sweep.induct)
  case (1 is_ask price prices book_side sz fs)
  show ?case
  proof (cases "sz > 0 \<and> prices \<noteq> [] \<and> crosses is_ask price (best_price is_ask prices)")
    case False
    from "1.prems" have "fs' = fs @ []" "book_side' = book_side"
      unfolding sweep_stop[OF False] by simp_all
    then show ?thesis by (intro exI[of _ "[]"]) (simp add: fills_at_def)
  next
    case True
    let ?p = "best_price is_ask prices"
    let ?q = "get_queue book_side ?p"
    obtain q1 sz1 fs1 where d: "drain (fill_tag is_ask) ?p ?q sz fs = (q1, sz1, fs1)"
      by (cases "drain (fill_tag is_ask) ?p ?q sz fs") auto
    let ?p1 = "if q1 = [] then remove1 ?p prices else prices"
    let ?b1 = "if q1 = [] then AList.delete ?p book_side else AList.update ?p q1 book_side"
    have sl: "sweep_level is_ask prices book_side sz fs = (?p1, ?b1, sz1, fs1)"
      unfolding sweep_level_eq[OF d] by simp
    from True sl "1.prems" have rec: "sweep is_ask price ?p1 ?b1 sz1 fs1 = (prices', book_side', sz', fs')"
      by (simp add: sweep_step)
    from drain_fifo[OF d] obtain new1 where
      n1: "fs1 = fs @ new1" "\<forall>f \<in> set new1. fill_side f = fill_tag is_ask \<and> fill_price f = ?p"
          "fifo_drained ?q q1 (map fill_qty new1)" by blast
    from "1.IH"[OF True sl[symmetric] refl refl rec] obtain new2 where
      n2: "fs' = fs1 @ new2"
          "\<forall>f \<in> set new2. fill_side f = fill_tag is_ask \<and> fill_price f \<in> set ?p1
                          \<and> crosses is_ask price (fill_price f)"
          "sorted_wrt (no_worse is_ask) (map fill_price new2)"
          "\<forall>x. fifo_drained (get_queue ?b1 x) (get_queue book_side' x) (map fill_qty (fills_at x new2))"
      by blast
    have pin: "?p \<in> set prices" using True by (simp add: best_price_in)
    have sub: "set ?p1 \<subseteq> set prices" using set_remove1_subset[of ?p prices] by auto
    have gq: "get_queue ?b1 x = (if x = ?p then q1 else get_queue book_side x)" for x
      by simp
    \<comment> \<open>after the best level, nothing more happens at that level\<close>
    have at_p: "fills_at ?p new2 = [] \<and> get_queue book_side' ?p = q1"
    proof (cases "q1 = []")
      case True
      from n2(4)[rule_format, of ?p] True
      have "fifo_drained [] (get_queue book_side' ?p) (map fill_qty (fills_at ?p new2))"
        by (simp add: gq)
      from fifo_drained_empty[OF this] True show ?thesis by simp
    next
      case False
      with drain_done[OF d] have "sz1 \<le> 0" by simp
      then have "sweep is_ask price ?p1 ?b1 sz1 fs1 = (?p1, ?b1, sz1, fs1)"
        by (intro sweep_stop) simp
      with rec n2(1) have "new2 = []" "book_side' = ?b1" by simp_all
      then show ?thesis by (simp add: fills_at_def)
    qed
    let ?new = "new1 @ new2"
    have c1: "fs' = fs @ ?new" using n1(1) n2(1) by simp
    have c2: "\<forall>f \<in> set ?new. fill_side f = fill_tag is_ask \<and> fill_price f \<in> set prices
                          \<and> crosses is_ask price (fill_price f)"
      using n1(2) n2(2) pin sub True by auto
    have s1: "sorted_wrt (no_worse is_ask) (map fill_price new1)"
      by (rule sorted_wrt_all_equal[of _ ?p]) (use n1(2) in \<open>auto simp: no_worse_def\<close>)
    have cross: "\<forall>a \<in> set (map fill_price new1). \<forall>b \<in> set (map fill_price new2). no_worse is_ask a b"
      using n1(2) n2(2) sub best_price_no_worse[of _ prices is_ask] by auto
    have c3: "sorted_wrt (no_worse is_ask) (map fill_price ?new)"
      using s1 n2(3) cross by (simp add: sorted_wrt_append)
    have c4: "fifo_drained (get_queue book_side x) (get_queue book_side' x)
                 (map fill_qty (fills_at x ?new))" for x
    proof (cases "x = ?p")
      case True
      have "fills_at ?p new1 = new1" using n1(2) by (simp add: fills_at_def)
      with at_p n1(3) True show ?thesis by (simp add: fills_at_def)
    next
      case False
      have "fills_at x new1 = []" using n1(2) False by (auto simp: fills_at_def filter_empty_conv)
      with n2(4)[rule_format, of x] False show ?thesis by (simp add: fills_at_def gq)
    qed
    from c1 c2 c3 c4 show ?thesis by blast
  qed
qed

lemma drain_first:
  assumes "0 < sz" and "q \<noteq> []" and "drain tag p q sz fs = (q', sz', fs')"
  shows "\<exists>f rest. fs' = fs @ f # rest \<and> fill_price f = p"
proof -
  from assms(2) obtain o1 qt where q: "q = o1 # qt" by (cases q) auto
  show ?thesis
  proof (cases "o_size o1 \<le> sz")
    case True
    with assms q have "drain tag p qt (sz - o_size o1) (fs @ [(tag, p, o_size o1)]) = (q', sz', fs')"
      by (simp add: drain_step)
    from drain_fifo[OF this] obtain new where "fs' = (fs @ [(tag, p, o_size o1)]) @ new" by blast
    then have "fs' = fs @ (tag, p, o_size o1) # new \<and> fill_price (tag, p, o_size o1) = p"
      by (simp add: fill_price_def)
    then show ?thesis by blast
  next
    case False
    with assms q have "fs' = fs @ (tag, p, sz) # [] \<and> fill_price (tag, p, sz) = p"
      by (auto simp: drain_step fill_price_def)
    then show ?thesis by blast
  qed
qed

lemma sweep_first:
  assumes "0 < sz" and "prices \<noteq> []" and "crosses is_ask price (best_price is_ask prices)"
    and "get_queue book_side (best_price is_ask prices) \<noteq> []"
    and sw: "sweep is_ask price prices book_side sz [] = (prices', book_side', sz', fs')"
  shows "fs' \<noteq> [] \<and> fill_price (hd fs') = best_price is_ask prices"
proof -
  let ?p = "best_price is_ask prices"
  obtain q1 sz1 fs1 where d: "drain (fill_tag is_ask) ?p (get_queue book_side ?p) sz [] = (q1, sz1, fs1)"
    by (cases "drain (fill_tag is_ask) ?p (get_queue book_side ?p) sz []") auto
  from drain_first[OF assms(1,4) d] obtain f rest where f: "fs1 = f # rest" "fill_price f = ?p"
    by auto
  let ?p1 = "if q1 = [] then remove1 ?p prices else prices"
  let ?b1 = "if q1 = [] then AList.delete ?p book_side else AList.update ?p q1 book_side"
  have sl: "sweep_level is_ask prices book_side sz [] = (?p1, ?b1, sz1, fs1)"
    unfolding sweep_level_eq[OF d] by simp
  from sw have "sweep is_ask price ?p1 ?b1 sz1 fs1 = (prices', book_side', sz', fs')"
    unfolding sweep_step[OF assms(1,2,3) sl] .
  from sweep_fifo[OF this] obtain new where "fs' = fs1 @ new" by blast
  with f show ?thesis by simp
qed

lemma sweep_size_nonneg:
  "sweep is_ask price prices book_side sz fs = (prices', book_side', sz', fs') \<Longrightarrow> 0 \<le> sz \<Longrightarrow> 0 \<le> sz'"
proof (induction is_ask price prices book_side sz fs rule: sweep.induct)
  case (1 is_ask price prices book_side sz fs)
  show ?case
  proof (cases "sz > 0 \<and> prices \<noteq> [] \<and> crosses is_ask price (best_price is_ask prices)")
    case False
    from "1.prems" show ?thesis unfolding sweep_stop[OF False] by simp
  next
    case True
    let ?p = "best_price is_ask prices"
    obtain q1 sz1 fs1 where d: "drain (fill_tag is_ask) ?p (get_queue book_side ?p) sz fs = (q1, sz1, fs1)"
      by (cases "drain (fill_tag is_ask) ?p (get_queue book_side ?p) sz fs") auto
    let ?p1 = "if q1 = [] then remove1 ?p prices else prices"
    let ?b1 = "if q1 = [] then AList.delete ?p book_side else AList.update ?p q1 book_side"
    have sl: "sweep_level is_ask prices book_side sz fs = (?p1, ?b1, sz1, fs1)"
      unfolding sweep_level_eq[OF d] by simp
    from True sl "1.prems" have rec: "sweep is_ask price ?p1 ?b1 sz1 fs1 = (prices', book_side', sz', fs')"
      by (simp add: sweep_step)
    from drain_nonneg[OF d "1.prems"(2)] have "0 \<le> sz1" .
    from "1.IH"[OF True sl[symmetric] refl refl rec this] show ?thesis .
  qed
qed

lemma sweep_end:
  "sweep is_ask price prices book_side sz fs = (prices', book_side', sz', fs') \<Longrightarrow>
     sz' \<le> 0 \<or> prices' = [] \<or> \<not> crosses is_ask price (best_price is_ask prices')"
proof (induction is_ask price prices book_side sz fs rule: sweep.induct)
  case (1 is_ask price prices book_side sz fs)
  show ?case
  proof (cases "sz > 0 \<and> prices \<noteq> [] \<and> crosses is_ask price (best_price is_ask prices)")
    case False
    from "1.prems" False show ?thesis unfolding sweep_stop[OF False] by auto
  next
    case True
    let ?p = "best_price is_ask prices"
    obtain q1 sz1 fs1 where d: "drain (fill_tag is_ask) ?p (get_queue book_side ?p) sz fs = (q1, sz1, fs1)"
      by (cases "drain (fill_tag is_ask) ?p (get_queue book_side ?p) sz fs") auto
    let ?p1 = "if q1 = [] then remove1 ?p prices else prices"
    let ?b1 = "if q1 = [] then AList.delete ?p book_side else AList.update ?p q1 book_side"
    have sl: "sweep_level is_ask prices book_side sz fs = (?p1, ?b1, sz1, fs1)"
      unfolding sweep_level_eq[OF d] by simp
    from True sl "1.prems" have rec: "sweep is_ask price ?p1 ?b1 sz1 fs1 = (prices', book_side', sz', fs')"
      by (simp add: sweep_step)
    from "1.IH"[OF True sl[symmetric] refl refl rec] show ?thesis .
  qed
qed

lemma no_cross_listed:
  assumes "prices = [] \<or> \<not> crosses is_ask price (best_price is_ask prices)" and "x \<in> set prices"
  shows "\<not> crosses is_ask price x"
proof
  assume c: "crosses is_ask price x"
  from assms(2) have ne: "prices \<noteq> []" by auto
  have "no_worse is_ask (best_price is_ask prices) x" using assms(2) by (rule best_price_no_worse)
  with c have "crosses is_ask price (best_price is_ask prices)"
    by (auto simp: crosses_def no_worse_def split: if_splits)
  with assms(1) ne show False by simp
qed

lemma sweep_priority:
  "sweep is_ask price prices book_side sz fs = (prices', book_side', sz', fs') \<Longrightarrow>
     \<exists>new. fs' = fs @ new \<and> set prices' \<subseteq> set prices
        \<and> (\<forall>f \<in> set new. \<forall>x \<in> set prices'. no_worse is_ask (fill_price f) x)
        \<and> (\<forall>x \<in> set prices. x \<notin> set prices' \<longrightarrow> get_queue book_side' x = [])
        \<and> (\<forall>x. x \<notin> set prices \<longrightarrow> get_queue book_side' x = get_queue book_side x)"
proof (induction is_ask price prices book_side sz fs rule: sweep.induct)
  case (1 is_ask price prices book_side sz fs)
  show ?case
  proof (cases "sz > 0 \<and> prices \<noteq> [] \<and> crosses is_ask price (best_price is_ask prices)")
    case False
    from "1.prems" have "fs' = fs @ []" "book_side' = book_side" "prices' = prices"
      unfolding sweep_stop[OF False] by simp_all
    then show ?thesis by (intro exI[of _ "[]"]) simp
  next
    case True
    let ?p = "best_price is_ask prices"
    let ?q = "get_queue book_side ?p"
    obtain q1 sz1 fs1 where d: "drain (fill_tag is_ask) ?p ?q sz fs = (q1, sz1, fs1)"
      by (cases "drain (fill_tag is_ask) ?p ?q sz fs") auto
    let ?p1 = "if q1 = [] then remove1 ?p prices else prices"
    let ?b1 = "if q1 = [] then AList.delete ?p book_side else AList.update ?p q1 book_side"
    have sl: "sweep_level is_ask prices book_side sz fs = (?p1, ?b1, sz1, fs1)"
      unfolding sweep_level_eq[OF d] by simp
    from True sl "1.prems" have rec: "sweep is_ask price ?p1 ?b1 sz1 fs1 = (prices', book_side', sz', fs')"
      by (simp add: sweep_step)
    from drain_fifo[OF d] obtain new1 where
      n1: "fs1 = fs @ new1" "\<forall>f \<in> set new1. fill_side f = fill_tag is_ask \<and> fill_price f = ?p"
      by blast
    from "1.IH"[OF True sl[symmetric] refl refl rec] obtain new2 where
      n2: "fs' = fs1 @ new2" "set prices' \<subseteq> set ?p1"
          "\<forall>f \<in> set new2. \<forall>x \<in> set prices'. no_worse is_ask (fill_price f) x"
          "\<forall>x \<in> set ?p1. x \<notin> set prices' \<longrightarrow> get_queue book_side' x = []"
          "\<forall>x. x \<notin> set ?p1 \<longrightarrow> get_queue book_side' x = get_queue ?b1 x"
      by blast
    have pin: "?p \<in> set prices" using True by (simp add: best_price_in)
    have sub: "set ?p1 \<subseteq> set prices" using set_remove1_subset[of ?p prices] by auto
    have gq: "get_queue ?b1 x = (if x = ?p then q1 else get_queue book_side x)" for x
      by simp
    have out: "x = ?p \<and> q1 = []" if "x \<in> set prices" "x \<notin> set ?p1" for x
    proof (cases "q1 = []")
      case True
      have "x = ?p"
      proof (rule ccontr)
        assume "x \<noteq> ?p"
        with that(1) have "x \<in> set (remove1 ?p prices)" by simp
        with that(2) True show False by simp
      qed
      with True show ?thesis by simp
    next
      case False
      with that show ?thesis by simp
    qed
    let ?new = "new1 @ new2"
    have c1: "fs' = fs @ ?new" using n1(1) n2(1) by simp
    have c2: "set prices' \<subseteq> set prices" using n2(2) sub by blast
    have c3: "\<forall>f \<in> set ?new. \<forall>x \<in> set prices'. no_worse is_ask (fill_price f) x"
      using n1(2) n2(3) c2 best_price_no_worse[of _ prices is_ask] by auto
    have c4: "get_queue book_side' x = []" if "x \<in> set prices" "x \<notin> set prices'" for x
    proof (cases "x \<in> set ?p1")
      case True
      with n2(4) that(2) show ?thesis by blast
    next
      case False
      from out[OF that(1) False] have x: "x = ?p" and e: "q1 = []" by simp_all
      from n2(5) False have "get_queue book_side' x = get_queue ?b1 x" by blast
      also have "\<dots> = []" using x e by (simp add: gq)
      finally show ?thesis .
    qed
    have c5: "get_queue book_side' x = get_queue book_side x" if "x \<notin> set prices" for x
    proof -
      from that sub have "x \<notin> set ?p1" by blast
      with n2(5) have "get_queue book_side' x = get_queue ?b1 x" by blast
      moreover have "x \<noteq> ?p" using that pin by auto
      ultimately show ?thesis by (simp add: gq)
    qed
    from c1 c2 c3 c4 c5 show ?thesis by blast
  qed
qed

lemma sweep_complete:
  assumes sw: "sweep is_ask price prices book_side sz [] = (prices', book_side', sz', fs')"
    and sz: "0 < sz"
  shows "fills_total fs' = sz \<or> (\<forall>x \<in> set prices'. \<not> crosses is_ask price x)"
proof -
  from sweep_size_nonneg[OF sw] sz have n: "0 \<le> sz'" by simp
  from sweep_conserve[OF sw, of "\<lambda>x. True"] have t: "fills_total fs' = sz - sz'"
    by (simp add: fills_total_def)
  from sweep_end[OF sw] consider "sz' \<le> 0" | "prices' = [] \<or> \<not> crosses is_ask price (best_price is_ask prices')"
    by blast
  then show ?thesis
  proof cases
    case 1
    with n t show ?thesis by simp
  next
    case 2
    from no_cross_listed[OF 2] show ?thesis by blast
  qed
qed

lemma place_limit_order_queues:
  "get_queue (bids (fst (place_limit_order sd price sz t ob))) p
     = get_queue (bids ob) p
       @ (if sd = ''bid'' \<and> price = p
          then [\<lparr>o_oid = next_oid ob, o_side = sd, o_price = price, o_size = sz, o_ts = t\<rparr>] else [])"
  "get_queue (asks (fst (place_limit_order sd price sz t ob))) p
     = get_queue (asks ob) p
       @ (if sd \<noteq> ''bid'' \<and> price = p
          then [\<lparr>o_oid = next_oid ob, o_side = sd, o_price = price, o_size = sz, o_ts = t\<rparr>] else [])"
  "next_oid (fst (place_limit_order sd price sz t ob)) = next_oid ob + 1"
  by (simp_all add: place_limit_order_def Let_def)

lemma place_all_queues:
  "get_queue (bids (place_all pls ob)) p
     = get_queue (bids ob) p
       @ filter (\<lambda>o1. o_side o1 = ''bid'' \<and> o_price o1 = p) (placed_orders (next_oid ob) pls)
   \<and> get_queue (asks (place_all pls ob)) p
     = get_queue (asks ob) p
       @ filter (\<lambda>o1. o_side o1 \<noteq> ''bid'' \<and> o_price o1 = p) (placed_orders (next_oid ob) pls)"
proof (induction pls arbitrary: ob)
  case Nil
  then show ?case by simp
next
  case (Cons pl pls)
  obtain sd price sz t where pl: "pl = (sd, price, sz, t)" by (cases pl) auto
  let ?ob1 = "fst (place_limit_order sd price sz t ob)"
  from Cons[of ?ob1] show ?case unfolding pl
    by (simp add: place_limit_order_queues)
qed

lemma sorted_wrt_no_worse:
  "sorted_wrt (no_worse True) xs = sorted xs"
  "sorted_wrt (no_worse False) xs = sorted (rev xs)"
proof -
  have a: "no_worse True = (\<le>)" and b: "no_worse False = (\<lambda>x y. y \<le> x)"
    by (auto simp: no_worse_def fun_eq_iff)
  show "sorted_wrt (no_worse True) xs = sorted xs" unfolding a ..
  show "sorted_wrt (no_worse False) xs = sorted (rev xs)" unfolding b
    by (simp add: sorted_wrt_rev)
qed

lemma abc_facts:
  "hits_asks (place_all abc_placements empty_book) 100
   \<and> map o_oid (get_queue (asks (place_all abc_placements empty_book)) 100) = [1, 2, 3]
   \<and> snd (process_trade 100 4 5 (place_all abc_placements empty_book))
       = [(''sell'', 99, 1), (''sell'', 100, 2), (''sell'', 100, 1)]
   \<and> map (\<lambda>o1. (o_oid o1, o_size o1))
          (get_queue (asks (fst (process_trade 100 4 5 (place_all abc_placements empty_book)))) 100)
       = [(2, 2), (3, 4)]"
  by code_simp

lemma sweep_summary:
  assumes sw: "sweep is_ask price prices book_side sz [] = (prices', book_side', sz', fs')"
  shows "sorted_wrt (no_worse is_ask) (map fill_price fs')"
    and "\<forall>x. fifo_drained (get_queue book_side x) (get_queue book_side' x) (map fill_qty (fills_at x fs'))"
    and "\<forall>f \<in> set fs'. \<forall>x \<in> set prices'. no_worse is_ask (fill_price f) x"
    and "\<forall>x \<in> set prices. x \<notin> set prices' \<longrightarrow> get_queue book_side' x = []"
    and "0 < sz \<longrightarrow> fills_total fs' = sz \<or> (\<forall>x \<in> set prices'. \<not> crosses is_ask price x)"
proof -
  from sweep_fifo[OF sw] show "sorted_wrt (no_worse is_ask) (map fill_price fs')"
    and "\<forall>x. fifo_drained (get_queue book_side x) (get_queue book_side' x) (map fill_qty (fills_at x fs'))"
    by auto
  from sweep_priority[OF sw] show "\<forall>f \<in> set fs'. \<forall>x \<in> set prices'. no_worse is_ask (fill_price f) x"
    and "\<forall>x \<in> set prices. x \<notin> set prices' \<longrightarrow> get_queue book_side' x = []"
    by auto
  from sweep_complete[OF sw]
  show "0 < sz \<longrightarrow> fills_total fs' = sz \<or> (\<forall>x \<in> set prices'. \<not> crosses is_ask price x)" by blast
qed

lemma process_trade_priority_asks:
  assumes h: "hits_asks ob price"
  shows "sorted (map fill_price (snd (process_trade price sz t ob)))
     \<and> (\<forall>p. fifo_drained (get_queue (asks ob) p)
              (get_queue (asks (fst (process_trade price sz t ob))) p)
              (map fill_qty (fills_at p (snd (process_trade price sz t ob)))))
     \<and> (\<forall>f \<in> set (snd (process_trade price sz t ob)).
          \<forall>x \<in> set (ask_prices (fst (process_trade price sz t ob))). fill_price f \<le> x)
     \<and> (\<forall>x \<in> set (ask_prices ob).
          x \<notin> set (ask_prices (fst (process_trade price sz t ob)))
          \<longrightarrow> get_queue (asks (fst (process_trade price sz t ob))) x = [])
     \<and> (0 < sz \<longrightarrow>
          fills_total (snd (process_trade price sz t ob)) = sz
          \<or> (\<forall>x \<in> set (ask_prices (fst (process_trade price sz t ob))). price < x))
     \<and> (0 < sz \<and> get_queue (asks ob) (Min (set (ask_prices ob))) \<noteq> [] \<longrightarrow>
          snd (process_trade price sz t ob) \<noteq> []
          \<and> fill_price (hd (snd (process_trade price sz t ob))) = Min (set (ask_prices ob)))"
proof -
  obtain prices' asks' sz' fs where
    sw: "sweep True price (ask_prices ob) (asks ob) sz [] = (prices', asks', sz', fs)"
    by (cases "sweep True price (ask_prices ob) (asks ob) sz []") auto
  note pt = process_trade_asks[OF h sw, of t]
  have first: "fs \<noteq> [] \<and> fill_price (hd fs) = Min (set (ask_prices ob))"
    if "0 < sz" "get_queue (asks ob) (Min (set (ask_prices ob))) \<noteq> []"
  proof -
    from h have "ask_prices ob \<noteq> []" "crosses True price (best_price True (ask_prices ob))"
      by (simp_all add: hits_asks_def crosses_def best_price_def)
    from sweep_first[OF that(1) this _ sw] that(2) show ?thesis by (simp add: best_price_def)
  qed
  from sweep_summary[OF sw] first show ?thesis unfolding pt
    by (simp add: sorted_wrt_no_worse no_worse_def crosses_def not_le)
qed

lemma process_trade_priority_bids:
  assumes h: "\<not> hits_asks ob price"
  shows "sorted (rev (map fill_price (snd (process_trade price sz t ob))))
     \<and> (\<forall>p. fifo_drained (get_queue (bids ob) p)
              (get_queue (bids (fst (process_trade price sz t ob))) p)
              (map fill_qty (fills_at p (snd (process_trade price sz t ob)))))
     \<and> (\<forall>f \<in> set (snd (process_trade price sz t ob)).
          \<forall>x \<in> set (bid_prices (fst (process_trade price sz t ob))). x \<le> fill_price f)
     \<and> (\<forall>x \<in> set (bid_prices ob).
          x \<notin> set (bid_prices (fst (process_trade price sz t ob)))
          \<longrightarrow> get_queue (bids (fst (process_trade price sz t ob))) x = [])
     \<and> (0 < sz \<longrightarrow>
          fills_total (snd (process_trade price sz t ob)) = sz
          \<or> (\<forall>x \<in> set (bid_prices (fst (process_trade price sz t ob))). x < price))
     \<and> (0 < sz \<and> hits_bids ob price \<and> get_queue (bids ob) (Max (set (bid_prices ob))) \<noteq> [] \<longrightarrow>
          snd (process_trade price sz t ob) \<noteq> []
          \<and> fill_price (hd (snd (process_trade price sz t ob))) = Max (set (bid_prices ob)))"
proof (cases "hits_bids ob price")
  case True
  obtain prices' bids' sz' fs where
    sw: "sweep False price (bid_prices ob) (bids ob) sz [] = (prices', bids', sz', fs)"
    by (cases "sweep False price (bid_prices ob) (bids ob) sz []") auto
  note pt = process_trade_bids[OF h True sw, of t]
  have first: "fs \<noteq> [] \<and> fill_price (hd fs) = Max (set (bid_prices ob))"
    if "0 < sz" "get_queue (bids ob) (Max (set (bid_prices ob))) \<noteq> []"
  proof -
    from True have "bid_prices ob \<noteq> []" "crosses False price (best_price False (bid_prices ob))"
      by (simp_all add: hits_bids_def crosses_def best_price_def)
    from sweep_first[OF that(1) this _ sw] that(2) show ?thesis by (simp add: best_price_def)
  qed
  from sweep_summary[OF sw] first show ?thesis unfolding pt
    by (simp add: sorted_wrt_no_worse no_worse_def crosses_def not_le)
next
  case False
  have "x < price" if "x \<in> set (bid_prices ob)" for x
  proof -
    from that have ne: "bid_prices ob \<noteq> []" by auto
    with False have "\<not> price \<le> Max (set (bid_prices ob))" by (simp add: hits_bids_def)
    then have "Max (set (bid_prices ob)) < price" by (simp only: not_le)
    moreover have "x \<le> Max (set (bid_prices ob))" using that by simp
    ultimately show ?thesis by simp
  qed
  then have lt: "\<forall>x \<in> set (bid_prices ob). x < price" by blast
  show ?thesis unfolding process_trade_none[OF h False, of sz t]
    using False lt by (simp add: fills_at_def)
qed

lemma bid_facts:
  "\<not> hits_asks (place_all bid_placements empty_book) 50
   \<and> hits_bids (place_all bid_placements empty_book) 50
   \<and> map o_oid (get_queue (bids (place_all bid_placements empty_book)) 50) = [1, 2, 3]
   \<and> get_queue (bids (place_all bid_placements empty_book)) 51 \<noteq> []
   \<and> bid_prices (place_all bid_placements empty_book) = [50, 51]
   \<and> snd (process_trade 50 4 5 (place_all bid_placements empty_book))
       = [(''buy'', 51, 1), (''buy'', 50, 2), (''buy'', 50, 1)]
   \<and> bid_prices (fst (process_trade 50 4 5 (place_all bid_placements empty_book))) = [50]
   \<and> map (\<lambda>o1. (o_oid o1, o_size o1))
          (get_queue (bids (fst (process_trade 50 4 5 (place_all bid_placements empty_book)))) 50)
       = [(2, 2), (3, 4)]"
  by code_simp

lemma abc_facts2:
  "get_queue (asks (place_all abc_placements empty_book)) 99 \<noteq> []
   \<and> Min (set (ask_prices (place_all abc_placements empty_book))) = 99
   \<and> ask_prices (place_all abc_placements empty_book) = [99, 100]
   \<and> ask_prices (fst (process_trade 100 4 5 (place_all abc_placements empty_book))) = [100]"
  by code_simp

text \<open>
  C3: after any sequence of placements on any book, each queue is the queue it was,
  followed by the orders placed at that side and price in placement order. A following
  \<open>process_trade\<close> sweeps the asks when the price reaches the best ask and the bids
  otherwise, and on the side it sweeps:
  the fills come best price first (ascending prices for asks, descending for bids);
  at every price the fills of that level take from the queue in FIFO order, that is
  every fill but the last of the level drains its order completely, orders are taken in
  queue order, and the orders not reached stay in their order behind a partly filled
  head;
  every fill is at a price no worse than every level still listed after the trade, and
  a level that has left the list has an empty queue, so a level is touched only once
  every better level is drained completely;
  a trade of positive size is not cut short: its fills sum to the trade size, or no
  level that is still listed satisfies the direction condition;
  a trade of positive size that reaches the best price starts there: there is a fill,
  and the first fill is at the best price (when that level's queue is not empty).
\<close>

theorem fifo_priority:
  "(\<forall>p. get_queue (bids (place_all pls ob)) p
          = get_queue (bids ob) p
            @ filter (\<lambda>o1. o_side o1 = ''bid'' \<and> o_price o1 = p) (placed_orders (next_oid ob) pls))
   \<and> (\<forall>p. get_queue (asks (place_all pls ob)) p
          = get_queue (asks ob) p
            @ filter (\<lambda>o1. o_side o1 \<noteq> ''bid'' \<and> o_price o1 = p) (placed_orders (next_oid ob) pls))
   \<and> (hits_asks (place_all pls ob) price \<longrightarrow>
         sorted (map fill_price (snd (process_trade price sz t (place_all pls ob))))
         \<and> (\<forall>p. fifo_drained
                  (get_queue (asks (place_all pls ob)) p)
                  (get_queue (asks (fst (process_trade price sz t (place_all pls ob)))) p)
                  (map fill_qty (fills_at p (snd (process_trade price sz t (place_all pls ob))))))
         \<and> (\<forall>f \<in> set (snd (process_trade price sz t (place_all pls ob))).
              \<forall>x \<in> set (ask_prices (fst (process_trade price sz t (place_all pls ob)))).
                fill_price f \<le> x)
         \<and> (\<forall>x \<in> set (ask_prices (place_all pls ob)).
              x \<notin> set (ask_prices (fst (process_trade price sz t (place_all pls ob))))
              \<longrightarrow> get_queue (asks (fst (process_trade price sz t (place_all pls ob)))) x = [])
         \<and> (0 < sz \<longrightarrow>
              fills_total (snd (process_trade price sz t (place_all pls ob))) = sz
              \<or> (\<forall>x \<in> set (ask_prices (fst (process_trade price sz t (place_all pls ob)))).
                    price < x))
         \<and> (0 < sz
              \<and> get_queue (asks (place_all pls ob)) (Min (set (ask_prices (place_all pls ob)))) \<noteq> []
              \<longrightarrow> snd (process_trade price sz t (place_all pls ob)) \<noteq> []
                \<and> fill_price (hd (snd (process_trade price sz t (place_all pls ob))))
                    = Min (set (ask_prices (place_all pls ob)))))
   \<and> (\<not> hits_asks (place_all pls ob) price \<longrightarrow>
         sorted (rev (map fill_price (snd (process_trade price sz t (place_all pls ob)))))
         \<and> (\<forall>p. fifo_drained
                  (get_queue (bids (place_all pls ob)) p)
                  (get_queue (bids (fst (process_trade price sz t (place_all pls ob)))) p)
                  (map fill_qty (fills_at p (snd (process_trade price sz t (place_all pls ob))))))
         \<and> (\<forall>f \<in> set (snd (process_trade price sz t (place_all pls ob))).
              \<forall>x \<in> set (bid_prices (fst (process_trade price sz t (place_all pls ob)))).
                x \<le> fill_price f)
         \<and> (\<forall>x \<in> set (bid_prices (place_all pls ob)).
              x \<notin> set (bid_prices (fst (process_trade price sz t (place_all pls ob))))
              \<longrightarrow> get_queue (bids (fst (process_trade price sz t (place_all pls ob)))) x = [])
         \<and> (0 < sz \<longrightarrow>
              fills_total (snd (process_trade price sz t (place_all pls ob))) = sz
              \<or> (\<forall>x \<in> set (bid_prices (fst (process_trade price sz t (place_all pls ob)))).
                    x < price))
         \<and> (0 < sz \<and> hits_bids (place_all pls ob) price
              \<and> get_queue (bids (place_all pls ob)) (Max (set (bid_prices (place_all pls ob)))) \<noteq> []
              \<longrightarrow> snd (process_trade price sz t (place_all pls ob)) \<noteq> []
                \<and> fill_price (hd (snd (process_trade price sz t (place_all pls ob))))
                    = Max (set (bid_prices (place_all pls ob)))))"
proof (intro conjI)
  from place_all_queues[of pls ob]
  show "\<forall>p. get_queue (bids (place_all pls ob)) p
          = get_queue (bids ob) p
            @ filter (\<lambda>o1. o_side o1 = ''bid'' \<and> o_price o1 = p) (placed_orders (next_oid ob) pls)"
    and "\<forall>p. get_queue (asks (place_all pls ob)) p
          = get_queue (asks ob) p
            @ filter (\<lambda>o1. o_side o1 \<noteq> ''bid'' \<and> o_price o1 = p) (placed_orders (next_oid ob) pls)"
    by simp_all
qed (rule impI, erule process_trade_priority_asks, rule impI, erule process_trade_priority_bids)

theorem fifo_priority_witness:
  "hits_asks (place_all abc_placements empty_book) 100
   \<and> map o_oid (get_queue (asks (place_all abc_placements empty_book)) 100) = [1, 2, 3]
   \<and> snd (process_trade 100 4 5 (place_all abc_placements empty_book))
       = [(''sell'', 99, 1), (''sell'', 100, 2), (''sell'', 100, 1)]
   \<and> map (\<lambda>o1. (o_oid o1, o_size o1))
          (get_queue (asks (fst (process_trade 100 4 5 (place_all abc_placements empty_book)))) 100)
       = [(2, 2), (3, 4)]
   \<and> fifo_drained
        (get_queue (asks (place_all abc_placements empty_book)) 100)
        (get_queue (asks (fst (process_trade 100 4 5 (place_all abc_placements empty_book)))) 100)
        [2, 1]
   \<and> get_queue (asks (fst (process_trade 100 4 5 (place_all abc_placements empty_book)))) 99 = []
   \<and> fills_total (snd (process_trade 100 4 5 (place_all abc_placements empty_book))) = 4
   \<and> \<not> hits_asks (place_all bid_placements empty_book) 50
   \<and> hits_bids (place_all bid_placements empty_book) 50
   \<and> map o_oid (get_queue (bids (place_all bid_placements empty_book)) 50) = [1, 2, 3]
   \<and> snd (process_trade 50 4 5 (place_all bid_placements empty_book))
       = [(''buy'', 51, 1), (''buy'', 50, 2), (''buy'', 50, 1)]
   \<and> map (\<lambda>o1. (o_oid o1, o_size o1))
          (get_queue (bids (fst (process_trade 50 4 5 (place_all bid_placements empty_book)))) 50)
       = [(2, 2), (3, 4)]
   \<and> fifo_drained
        (get_queue (bids (place_all bid_placements empty_book)) 50)
        (get_queue (bids (fst (process_trade 50 4 5 (place_all bid_placements empty_book)))) 50)
        [2, 1]
   \<and> get_queue (bids (fst (process_trade 50 4 5 (place_all bid_placements empty_book)))) 51 = []
   \<and> fills_total (snd (process_trade 50 4 5 (place_all bid_placements empty_book))) = 4"
proof -
  let ?a = "place_all abc_placements empty_book" and ?b = "place_all bid_placements empty_book"
  have qa: "map fill_qty (fills_at 100 [(''sell'', 99, 1), (''sell'', 100, 2), (''sell'', 100, 1)]) = [2, 1]"
    and qb: "map fill_qty (fills_at 50 [(''buy'', 51, 1), (''buy'', 50, 2), (''buy'', 50, 1)]) = [2, 1]"
    by (simp_all add: fills_at_def fill_price_def fill_qty_def)
  note fa = abc_facts abc_facts2 and fb = bid_facts
  have z: "(0::int) < 4" by simp
  have ha: "hits_asks ?a 100" using abc_facts by simp
  have hb: "\<not> hits_asks ?b 50" using bid_facts by simp
  from fifo_priority[of abc_placements empty_book 100 4 5] ha z
  have a1: "fifo_drained (get_queue (asks ?a) 100) (get_queue (asks (fst (process_trade 100 4 5 ?a))) 100)
              (map fill_qty (fills_at 100 (snd (process_trade 100 4 5 ?a))))"
    and a2: "\<forall>x \<in> set (ask_prices ?a). x \<notin> set (ask_prices (fst (process_trade 100 4 5 ?a)))
                \<longrightarrow> get_queue (asks (fst (process_trade 100 4 5 ?a))) x = []"
    and a3: "fills_total (snd (process_trade 100 4 5 ?a)) = 4
              \<or> (\<forall>x \<in> set (ask_prices (fst (process_trade 100 4 5 ?a))). (100::rat) < x)"
    by blast+
  from a1 fa qa have a1': "fifo_drained (get_queue (asks ?a) 100)
       (get_queue (asks (fst (process_trade 100 4 5 ?a))) 100) [2, 1]" by simp
  from a2 fa have a2': "get_queue (asks (fst (process_trade 100 4 5 ?a))) 99 = []" by simp
  from a3 fa have a3': "fills_total (snd (process_trade 100 4 5 ?a)) = 4" by simp
  from fifo_priority[of bid_placements empty_book 50 4 5] hb z
  have b1: "fifo_drained (get_queue (bids ?b) 50) (get_queue (bids (fst (process_trade 50 4 5 ?b))) 50)
              (map fill_qty (fills_at 50 (snd (process_trade 50 4 5 ?b))))"
    and b2: "\<forall>x \<in> set (bid_prices ?b). x \<notin> set (bid_prices (fst (process_trade 50 4 5 ?b)))
                \<longrightarrow> get_queue (bids (fst (process_trade 50 4 5 ?b))) x = []"
    and b3: "fills_total (snd (process_trade 50 4 5 ?b)) = 4
              \<or> (\<forall>x \<in> set (bid_prices (fst (process_trade 50 4 5 ?b))). x < (50::rat))"
    by blast+
  from b1 fb qb have b1': "fifo_drained (get_queue (bids ?b) 50)
       (get_queue (bids (fst (process_trade 50 4 5 ?b))) 50) [2, 1]" by simp
  from b2 fb have b2': "get_queue (bids (fst (process_trade 50 4 5 ?b))) 51 = []" by simp
  from b3 fb have b3': "fills_total (snd (process_trade 50 4 5 ?b)) = 4" by simp
  from fa fb a1' a2' a3' b1' b2' b3' show ?thesis by simp
qed

section \<open>Direction of a trade\<close>

lemma direction_facts:
  "hits_asks deep_book 102 \<and> \<not> hits_asks deep_book 98 \<and> hits_bids deep_book 98
   \<and> \<not> hits_asks deep_book 100 \<and> \<not> hits_bids deep_book 100
   \<and> snd (process_trade 102 20 1 deep_book) = [(''sell'', 101, 10), (''sell'', 102, 5)]
   \<and> snd (process_trade 98 12 2 deep_book) = [(''buy'', 99, 10), (''buy'', 98, 2)]"
  by code_simp

text \<open>
  C2 (as stated): if the bid side is non-empty and \<open>price <= best bid\<close>, bids are swept
  and every fill is tagged \<open>'buy'\<close>. This fails on a crossed book: the ask branch is
  tested first and the bid branch is its \<open>elif\<close>. With best bid 101 and best ask 100, a
  trade at 100 satisfies the bid condition, yet it sweeps the asks, its fill is tagged
  \<open>'sell'\<close>, and the bids are untouched.
\<close>

theorem crossed_book_sweeps_asks_counterexample:
  "bid_prices crossed_book \<noteq> []
   \<and> 100 \<le> Max (set (bid_prices crossed_book))
   \<and> snd (process_trade 100 3 1 crossed_book) = [(''sell'', 100, 3)]
   \<and> bids (fst (process_trade 100 3 1 crossed_book)) = bids crossed_book"
  by code_simp

text \<open>
  C2 (amended): if the ask side is non-empty and \<open>price >= best ask\<close>, asks are swept
  (bids untouched; a positive trade meeting a non-empty best ask queue fills first at
  the best ask) and every fill is tagged \<open>'sell'\<close>, at a listed ask price not above
  the trade price; otherwise, if the bid side is non-empty and \<open>price <= best bid\<close>,
  bids are swept likewise and every fill is tagged \<open>'buy'\<close>; otherwise (the price
  lies strictly between the best prices, or the side it would hit is empty) the fill
  list is empty and only the book time changes. No case has an error result.
\<close>

theorem trade_direction:
  "(hits_asks ob price \<longrightarrow>
      (\<forall>f \<in> set (snd (process_trade price sz t ob)).
          fill_side f = ''sell'' \<and> fill_price f \<in> set (ask_prices ob) \<and> fill_price f \<le> price)
      \<and> bids (fst (process_trade price sz t ob)) = bids ob
      \<and> bid_prices (fst (process_trade price sz t ob)) = bid_prices ob
      \<and> (0 < sz \<and> get_queue (asks ob) (Min (set (ask_prices ob))) \<noteq> [] \<longrightarrow>
            snd (process_trade price sz t ob) \<noteq> []
            \<and> fill_price (hd (snd (process_trade price sz t ob))) = Min (set (ask_prices ob))))
   \<and> (\<not> hits_asks ob price \<and> hits_bids ob price \<longrightarrow>
      (\<forall>f \<in> set (snd (process_trade price sz t ob)).
          fill_side f = ''buy'' \<and> fill_price f \<in> set (bid_prices ob) \<and> price \<le> fill_price f)
      \<and> asks (fst (process_trade price sz t ob)) = asks ob
      \<and> ask_prices (fst (process_trade price sz t ob)) = ask_prices ob
      \<and> (0 < sz \<and> get_queue (bids ob) (Max (set (bid_prices ob))) \<noteq> [] \<longrightarrow>
            snd (process_trade price sz t ob) \<noteq> []
            \<and> fill_price (hd (snd (process_trade price sz t ob))) = Max (set (bid_prices ob))))
   \<and> (\<not> hits_asks ob price \<and> \<not> hits_bids ob price \<longrightarrow>
      process_trade price sz t ob = (ob\<lparr>time := t\<rparr>, []))"
proof (intro conjI impI)
  assume "\<not> hits_asks ob price \<and> \<not> hits_bids ob price"
  then show "process_trade price sz t ob = (ob\<lparr>time := t\<rparr>, [])"
    by (simp add: process_trade_none)
next
  assume h: "hits_asks ob price"
  obtain prices' asks' sz' fs where
    sw: "sweep True price (ask_prices ob) (asks ob) sz [] = (prices', asks', sz', fs)"
    by (cases "sweep True price (ask_prices ob) (asks ob) sz []") auto
  note pt = process_trade_asks[OF h sw, of t]
  from sweep_fifo[OF sw] pt
  show "\<forall>f \<in> set (snd (process_trade price sz t ob)).
          fill_side f = ''sell'' \<and> fill_price f \<in> set (ask_prices ob) \<and> fill_price f \<le> price"
    by (auto simp: fill_tag_def crosses_def)
  from pt show "bids (fst (process_trade price sz t ob)) = bids ob"
    and "bid_prices (fst (process_trade price sz t ob)) = bid_prices ob" by simp_all
  assume nv: "0 < sz \<and> get_queue (asks ob) (Min (set (ask_prices ob))) \<noteq> []"
  from h have c: "ask_prices ob \<noteq> []" "crosses True price (best_price True (ask_prices ob))"
    by (simp_all add: hits_asks_def crosses_def best_price_def)
  from nv have q: "get_queue (asks ob) (best_price True (ask_prices ob)) \<noteq> []"
    by (simp add: best_price_def)
  from sweep_first[OF _ c q sw] nv pt
  show "snd (process_trade price sz t ob) \<noteq> []"
    and "fill_price (hd (snd (process_trade price sz t ob))) = Min (set (ask_prices ob))"
    by (simp_all add: best_price_def)
next
  assume hh: "\<not> hits_asks ob price \<and> hits_bids ob price"
  then have h: "\<not> hits_asks ob price" and hb: "hits_bids ob price" by simp_all
  obtain prices' bids' sz' fs where
    sw: "sweep False price (bid_prices ob) (bids ob) sz [] = (prices', bids', sz', fs)"
    by (cases "sweep False price (bid_prices ob) (bids ob) sz []") auto
  note pt = process_trade_bids[OF h hb sw, of t]
  from sweep_fifo[OF sw] pt
  show "\<forall>f \<in> set (snd (process_trade price sz t ob)).
          fill_side f = ''buy'' \<and> fill_price f \<in> set (bid_prices ob) \<and> price \<le> fill_price f"
    by (auto simp: fill_tag_def crosses_def)
  from pt show "asks (fst (process_trade price sz t ob)) = asks ob"
    and "ask_prices (fst (process_trade price sz t ob)) = ask_prices ob" by simp_all
  assume nv: "0 < sz \<and> get_queue (bids ob) (Max (set (bid_prices ob))) \<noteq> []"
  from hb have c: "bid_prices ob \<noteq> []" "crosses False price (best_price False (bid_prices ob))"
    by (simp_all add: hits_bids_def crosses_def best_price_def)
  from nv have q: "get_queue (bids ob) (best_price False (bid_prices ob)) \<noteq> []"
    by (simp add: best_price_def)
  from sweep_first[OF _ c q sw] nv pt
  show "snd (process_trade price sz t ob) \<noteq> []"
    and "fill_price (hd (snd (process_trade price sz t ob))) = Max (set (bid_prices ob))"
    by (simp_all add: best_price_def)
qed

theorem trade_direction_witness:
  "hits_asks deep_book 102
   \<and> snd (process_trade 102 20 1 deep_book) = [(''sell'', 101, 10), (''sell'', 102, 5)]
   \<and> bids (fst (process_trade 102 20 1 deep_book)) = bids deep_book
   \<and> \<not> hits_asks deep_book 98 \<and> hits_bids deep_book 98
   \<and> snd (process_trade 98 12 2 deep_book) = [(''buy'', 99, 10), (''buy'', 98, 2)]
   \<and> asks (fst (process_trade 98 12 2 deep_book)) = asks deep_book
   \<and> \<not> hits_asks deep_book 100 \<and> \<not> hits_bids deep_book 100
   \<and> process_trade 100 7 3 deep_book = (deep_book\<lparr>time := 3\<rparr>, [])"
  using trade_direction[of deep_book 102 20 1] trade_direction[of deep_book 98 12 2]
    trade_direction[of deep_book 100 7 3] direction_facts
  by simp

end
